theory Spec2Isabelle
  imports Main "HOL-Library.Sublist"
begin

text \<open>
  A model of the command-line tool that asks a code-generation service to rewrite C#
  files and, with \<^verbatim>\<open>--retry-build\<close>, feeds the compiler's errors back to it: the module
  \<^verbatim>\<open>index.ts\<close> (\<^verbatim>\<open>getBuildErrorFiles\<close>, \<^verbatim>\<open>getBuildErrors\<close>, \<^verbatim>\<open>main\<close>) in its latest version,
  and the client module that it imports as \<^verbatim>\<open>./opencode.js\<close> (\<^verbatim>\<open>createSession\<close>,
  \<^verbatim>\<open>modifyFile\<close>, \<^verbatim>\<open>sendFollowUp\<close>, \<^verbatim>\<open>extractCode\<close>).  The definitions come first, the
  proofs after them.
\<close>

section \<open>JavaScript strings\<close>

text \<open>
  A JavaScript string is a sequence of code units; it is modelled as a \<open>string\<close>
  (a list of 8-bit characters), that is, the code units below 256.  Of the characters
  that the regular-expression class \<^verbatim>\<open>\s\<close> and \<^verbatim>\<open>trim\<close> treat as white space, the ones
  in this range are TAB, LF, VT, FF, CR, SPACE and NBSP; the line terminators (the
  characters that \<^verbatim>\<open>.\<close> does not match) in this range are LF and CR.
\<close>

definition js_space :: "char \<Rightarrow> bool" where
  "js_space c = (c \<in> set [CHR 0x09, CHR 0x0A, CHR 0x0B, CHR 0x0C, CHR 0x0D, CHR 0x20, CHR 0xA0])"

definition js_line_terminator :: "char \<Rightarrow> bool" where
  "js_line_terminator c = (c = CHR 0x0A \<or> c = CHR 0x0D)"

definition js_dot :: "char \<Rightarrow> bool" where
  "js_dot c = (\<not> js_line_terminator c)"

definition js_digit :: "char \<Rightarrow> bool" where
  "js_digit c = (c \<in> set ''0123456789'')"

definition js_any :: "char \<Rightarrow> bool" where
  "js_any c = True"

definition is_newline :: "char \<Rightarrow> bool" where
  "is_newline c = (c = CHR 0x0A)"

text \<open>\<^verbatim>\<open>s.trimEnd()\<close> and \<^verbatim>\<open>s.trim()\<close>.\<close>

definition trimEnd :: "string \<Rightarrow> string" where
  "trimEnd s = rev (dropWhile js_space (rev s))"

definition trim :: "string \<Rightarrow> string" where
  "trim s = dropWhile js_space (trimEnd s)"

text \<open>\<^verbatim>\<open>xs.join(sep)\<close>.\<close>

fun js_join :: "string \<Rightarrow> string list \<Rightarrow> string" where
  "js_join sep [] = []"
| "js_join sep [x] = x"
| "js_join sep (x # y # ys) = x @ sep @ js_join sep (y # ys)"

text \<open>
  \<^verbatim>\<open>s.split(sep)\<close> for a separator that is one character (\<^verbatim>\<open>"\n"\<close>) or a one-character
  class (\<^verbatim>\<open>/[\[(]/\<close>): the pieces between the separator characters; never the empty list.
\<close>

fun js_split :: "(char \<Rightarrow> bool) \<Rightarrow> string \<Rightarrow> string list" where
  "js_split p [] = [[]]"
| "js_split p (c # cs) =
     (if p c then [] # js_split p cs
      else (case js_split p cs of
              piece # pieces \<Rightarrow> (c # piece) # pieces
            | [] \<Rightarrow> [[c]]))"

section \<open>Regular expressions with backtracking\<close>

text \<open>
  The fragment of JavaScript regular expressions that the program uses: literals,
  character classes, sequence, alternative, the greedy \<^verbatim>\<open>?\<close>, and the quantifiers
  \<^verbatim>\<open>*\<close>, \<^verbatim>\<open>+\<close> and \<^verbatim>\<open>*?\<close> applied to a character class.

  \<open>rx_run r s\<close> lists, in the order in which the backtracking matcher tries them, the
  remainders of \<open>s\<close> after each way of matching \<open>r\<close> at the start of \<open>s\<close>.
\<close>

datatype rx =
    Lit string
  | Cls "char \<Rightarrow> bool"
  | Seq rx rx
  | Alt rx rx
  | Opt rx
  | Star "char \<Rightarrow> bool"
  | Plus "char \<Rightarrow> bool"
  | LazyStar "char \<Rightarrow> bool"

fun greedy_star :: "(char \<Rightarrow> bool) \<Rightarrow> string \<Rightarrow> string list" where
  "greedy_star p [] = [[]]"
| "greedy_star p (c # cs) = (if p c then greedy_star p cs @ [c # cs] else [c # cs])"

fun lazy_star :: "(char \<Rightarrow> bool) \<Rightarrow> string \<Rightarrow> string list" where
  "lazy_star p [] = [[]]"
| "lazy_star p (c # cs) = (c # cs) # (if p c then lazy_star p cs else [])"

fun rx_run :: "rx \<Rightarrow> string \<Rightarrow> string list" where
  "rx_run (Lit l) s = (if prefix l s then [drop (length l) s] else [])"
| "rx_run (Cls p) s = (case s of [] \<Rightarrow> [] | c # cs \<Rightarrow> if p c then [cs] else [])"
| "rx_run (Seq a b) s = concat (map (rx_run b) (rx_run a s))"
| "rx_run (Alt a b) s = rx_run a s @ rx_run b s"
| "rx_run (Opt a) s = rx_run a s @ [s]"
| "rx_run (Star p) s = greedy_star p s"
| "rx_run (Plus p) s = (case s of [] \<Rightarrow> [] | c # cs \<Rightarrow> if p c then greedy_star p cs else [])"
| "rx_run (LazyStar p) s = lazy_star p s"

text \<open>
  Each regular expression of the program has one capture group, which stands in the
  top-level sequence: \<^verbatim>\<open>before (group1) after\<close>, anchored by \<^verbatim>\<open>^\<close> or not.  The group
  always takes part in a match, so \<^verbatim>\<open>match[1]\<close> is a string whenever \<^verbatim>\<open>match\<close> is not null.
\<close>

record regex =
  anchored :: bool
  before :: rx
  group1 :: rx
  after :: rx

text \<open>
  The text captured by the group in each way of matching the expression at the start
  of \<open>s\<close>, in backtracking order.
\<close>

definition rx_match_at :: "regex \<Rightarrow> string \<Rightarrow> string list" where
  "rx_match_at re s =
     concat (map (\<lambda>s1.
       concat (map (\<lambda>s2.
         map (\<lambda>s3. take (length s1 - length s2) s1) (rx_run (after re) s2))
       (rx_run (group1 re) s1)))
     (rx_run (before re) s))"

text \<open>The leftmost start position with a match wins; the end of the string is a position too.\<close>

fun rx_search :: "regex \<Rightarrow> string \<Rightarrow> string option" where
  "rx_search re [] = (case rx_match_at re [] of g # _ \<Rightarrow> Some g | [] \<Rightarrow> None)"
| "rx_search re (c # cs) =
     (case rx_match_at re (c # cs) of g # _ \<Rightarrow> Some g | [] \<Rightarrow> rx_search re cs)"

text \<open>
  \<^verbatim>\<open>s.match(re)\<close> for an expression without the \<^verbatim>\<open>g\<close> flag: \<open>None\<close> is \<^verbatim>\<open>null\<close>, and
  \<open>Some g\<close> is a match whose \<^verbatim>\<open>match[1]\<close> is \<open>g\<close>.
\<close>

definition js_match :: "regex \<Rightarrow> string \<Rightarrow> string option" where
  "js_match re s =
     (if anchored re
      then (case rx_match_at re s of g # _ \<Rightarrow> Some g | [] \<Rightarrow> None)
      else rx_search re s)"

section \<open>The response extractor (\<^verbatim>\<open>extractCode\<close>)\<close>

text \<open>
  A response part as the program reads it: its \<^verbatim>\<open>type\<close> field and its \<^verbatim>\<open>text\<close> field,
  which may be missing.
\<close>

record part =
  ptype :: string
  ptext :: "string option"

definition fence :: string where
  "fence = [CHR 0x60, CHR 0x60, CHR 0x60]"

text \<open>\<^verbatim>\<open>/```(?:csharp|cs)?\s*\n([\s\S]*?)```/\<close>\<close>

definition fence_re :: regex where
  "fence_re = \<lparr>
     anchored = False,
     before = Seq (Lit fence) (Seq (Opt (Alt (Lit ''csharp'') (Lit ''cs'')))
                (Seq (Star js_space) (Cls is_newline))),
     group1 = LazyStar js_any,
     after = Lit fence \<rparr>"

text \<open>The loop of \<^verbatim>\<open>extractCode\<close>: the texts of the parts of type text whose text is truthy.\<close>

fun textParts :: "part list \<Rightarrow> string list" where
  "textParts [] = []"
| "textParts (p # ps) =
     (case ptext p of
        Some t \<Rightarrow> if ptype p = ''text'' \<and> t \<noteq> [] then t # textParts ps else textParts ps
      | None \<Rightarrow> textParts ps)"

definition extractCode :: "part list \<Rightarrow> string" where
  "extractCode parts =
     (let text = js_join [CHR 0x0A] (textParts parts) in
      case js_match fence_re text of
        Some m \<Rightarrow> trimEnd m @ [CHR 0x0A]
      | None \<Rightarrow> trimEnd text @ [CHR 0x0A])"

definition text_part :: "string \<Rightarrow> part" where
  "text_part t = \<lparr> ptype = ''text'', ptext = Some t \<rparr>"

subsection \<open>Properties of the extracted text\<close>

text \<open>A code-fence marker (three backquotes) occurs somewhere in the string.\<close>

fun contains_fence :: "string \<Rightarrow> bool" where
  "contains_fence [] = False"
| "contains_fence (c # cs) = (prefix fence (c # cs) \<or> contains_fence cs)"

text \<open>The text before the first code-fence marker, when there is one.\<close>

fun upto_fence :: "string \<Rightarrow> string option" where
  "upto_fence [] = None"
| "upto_fence (c # cs) =
     (if prefix fence (c # cs) then Some [] else map_option (Cons c) (upto_fence cs))"

text \<open>The last character is a newline and the one before it, if any, is not.\<close>

definition ends_with_one_newline :: "string \<Rightarrow> bool" where
  "ends_with_one_newline s =
     (case rev s of [] \<Rightarrow> False
      | c # cs \<Rightarrow> c = CHR 0x0A \<and> (case cs of [] \<Rightarrow> True | d # _ \<Rightarrow> d \<noteq> CHR 0x0A))"

text \<open>The end of the opening fence, \<^verbatim>\<open>\s*\n\<close>.\<close>

definition fence_header :: rx where
  "fence_header = Seq (Star js_space) (Cls is_newline)"

section \<open>The diagnostic extractor (\<^verbatim>\<open>getBuildErrorFiles\<close>, \<^verbatim>\<open>getBuildErrors\<close>)\<close>

definition is_open :: "char \<Rightarrow> bool" where
  "is_open c = (c = CHR ''['' \<or> c = CHR ''('')"

definition is_close :: "char \<Rightarrow> bool" where
  "is_close c = (c = CHR '']'' \<or> c = CHR '')'')"

definition is_sep :: "char \<Rightarrow> bool" where
  "is_sep c = (c = CHR '','' \<or> c = CHR '';'')"

text \<open>The common part of both expressions, \<^verbatim>\<open>[\[(]\d+[,;]\d+[\])]\s*:\s*error\s\<close>.\<close>

definition location_error :: rx where
  "location_error =
     Seq (Cls is_open) (Seq (Plus js_digit) (Seq (Cls is_sep) (Seq (Plus js_digit)
       (Seq (Cls is_close) (Seq (Star js_space) (Seq (Lit '':'') (Seq (Star js_space)
         (Seq (Lit ''error'') (Cls js_space)))))))))"

text \<open>\<^verbatim>\<open>/^\s*(.*\.cs)[\[(]\d+[,;]\d+[\])]\s*:\s*error\s/\<close>\<close>

definition errorFiles_re :: regex where
  "errorFiles_re = \<lparr>
     anchored = True,
     before = Star js_space,
     group1 = Seq (Star js_dot) (Lit ''.cs''),
     after = location_error \<rparr>"

text \<open>\<^verbatim>\<open>/^\s*(.*\.cs[\[(]\d+[,;]\d+[\])]\s*:\s*error\s.*)/\<close>\<close>

definition buildErrors_re :: regex where
  "buildErrors_re = \<lparr>
     anchored = True,
     before = Star js_space,
     group1 = Seq (Star js_dot) (Seq (Lit ''.cs'') (Seq location_error (Star js_dot))),
     after = Lit [] \<rparr>"

text \<open>
  What \<^verbatim>\<open>execSync\<close> does with the build command: it returns the standard output, or
  throws an error object whose \<^verbatim>\<open>stdout\<close> and \<^verbatim>\<open>stderr\<close> fields may be missing.  Both
  functions catch the error and go on with \<^verbatim>\<open>(err.stdout ?? "") + "\n" + (err.stderr ?? "")\<close>.
\<close>

datatype exec_result = ExecOk string | ExecFailed "string option" "string option"

definition nullish_or_empty :: "string option \<Rightarrow> string" where
  "nullish_or_empty v = (case v of None \<Rightarrow> [] | Some s \<Rightarrow> s)"

definition build_output :: "exec_result \<Rightarrow> string" where
  "build_output r =
     (case r of
        ExecOk out \<Rightarrow> out
      | ExecFailed out err \<Rightarrow> nullish_or_empty out @ [CHR 0x0A] @ nullish_or_empty err)"

text \<open>
  A JavaScript \<^verbatim>\<open>Set\<close> of strings, as the list of its elements in insertion order;
  \<open>set_add\<close> is \<^verbatim>\<open>Set.prototype.add\<close> and \<open>new_Set\<close> is \<^verbatim>\<open>new Set(xs)\<close>.
\<close>

definition set_add :: "string list \<Rightarrow> string \<Rightarrow> string list" where
  "set_add s x = (if x \<in> set s then s else s @ [x])"

definition new_Set :: "string list \<Rightarrow> string list" where
  "new_Set xs = foldl set_add [] xs"

text \<open>
  What the two functions do with the lines of the build output.  \<open>resolve\<close> is
  \<^verbatim>\<open>path.resolve\<close> of the Node.js library, a parameter of the model.
\<close>

definition errorFiles_step :: "(string \<Rightarrow> string) \<Rightarrow> string list \<Rightarrow> string \<Rightarrow> string list" where
  "errorFiles_step resolve errorFiles line =
     (case js_match errorFiles_re line of
        Some m1 \<Rightarrow> set_add errorFiles (resolve m1)
      | None \<Rightarrow> errorFiles)"

definition parseErrorFiles :: "(string \<Rightarrow> string) \<Rightarrow> string \<Rightarrow> string list" where
  "parseErrorFiles resolve output =
     foldl (errorFiles_step resolve) [] (js_split is_newline output)"

definition line_is_error_of :: "(string \<Rightarrow> string) \<Rightarrow> string \<Rightarrow> string \<Rightarrow> bool" where
  "line_is_error_of resolve resolved line =
     (case js_match buildErrors_re line of
        Some m1 \<Rightarrow> resolve (hd (js_split is_open m1)) = resolved
      | None \<Rightarrow> False)"

definition parseBuildErrors :: "(string \<Rightarrow> string) \<Rightarrow> string \<Rightarrow> string \<Rightarrow> string list" where
  "parseBuildErrors resolve output filePath =
     (let resolved = resolve filePath in
      map trim (filter (line_is_error_of resolve resolved) (js_split is_newline output)))"

text \<open>
  A model of \<^verbatim>\<open>path.resolve\<close> with one argument on a POSIX system whose working
  directory is \<open>cwd\<close> (an absolute, normalised path): a relative path is taken from
  \<open>cwd\<close>; empty segments and \<^verbatim>\<open>.\<close> are dropped, \<^verbatim>\<open>..\<close> removes the segment before it
  (nothing at the root), and the result has no trailing slash.  It is used only to
  evaluate the functions above on concrete inputs.
\<close>

definition is_slash :: "char \<Rightarrow> bool" where
  "is_slash c = (c = CHR ''/'')"

fun normalize_segments :: "string list \<Rightarrow> string list \<Rightarrow> string list" where
  "normalize_segments acc [] = acc"
| "normalize_segments acc (seg # segs) =
     (if seg = [] \<or> seg = ''.'' then normalize_segments acc segs
      else if seg = ''..'' then normalize_segments (butlast acc) segs
      else normalize_segments (acc @ [seg]) segs)"

definition posix_resolve :: "string \<Rightarrow> string \<Rightarrow> string" where
  "posix_resolve cwd p =
     (let full = (case p of
                    [] \<Rightarrow> cwd
                  | c # _ \<Rightarrow> if is_slash c then p else cwd @ ''/'' @ p);
          segs = normalize_segments [] (js_split is_slash full)
      in if segs = [] then ''/'' else concat (map (\<lambda>seg. CHR ''/'' # seg) segs))"

section \<open>The service client (\<^verbatim>\<open>createSession\<close>, \<^verbatim>\<open>modifyFile\<close>, \<^verbatim>\<open>sendFollowUp\<close>)\<close>

text \<open>
  The program talks to the generation service, the file system, the compiler and the
  console.  These effects are made explicit: every function takes the state of the
  run, which holds the list of the actions performed so far, and returns it extended,
  and what the outside world answers to a call is given by an oracle that may depend on
  everything that happened before.
\<close>

datatype exn = Exn string

text \<open>A part of a prompt request: a text, or a file given by mime type, name and URL.\<close>

datatype req_part = ReqText string | ReqFile string string string

text \<open>What the program prints with \<^verbatim>\<open>console.log\<close> and \<^verbatim>\<open>console.error\<close>, by message.\<close>

datatype console =
    RunningBuild string
  | BuildOutput string
  | NothingToProcess
  | BuildErrorsFound nat "string list"
  | NoCsFilesFound
  | FoundFiles nat
  | Processing nat nat string
  | NoChanges
  | DryRun string
  | Written
  | BuildCheck nat nat
  | BuildSucceeded
  | SendingBack nat
  | WrittenRetry
  | StillErrors nat nat
  | ErrorProcessing string exn
  | Done
  | FatalError exn

datatype action =
    Subscribe
  | Prompt string "req_part list"
  | StdoutWrite string
  | CreateSession
  | ReadFile string
  | WriteFile string string
  | WriteFileFailed string
  | ExecBuild string
  | Console console
  | UnhandledRejection exn

type_synonym trace = "action list"

text \<open>
  An event of the feed as the relay loop reads it: a value that is not an object with a
  \<^verbatim>\<open>type\<close> field, or an event with its type and its \<^verbatim>\<open>properties\<close>, which may be missing
  and which the program reads as \<^verbatim>\<open>{ sessionID: string; delta: string }\<close> without checking
  it: \<open>sessionID\<close> is \<open>None\<close> when the field is not a string (it is then equal to no session
  identifier), \<open>delta\<close> is \<open>None\<close> when the field is not a string.
\<close>

record props =
  sessionID :: "string option"
  delta :: "string option"

datatype event = NotAnEvent | Event string "props option"

text \<open>
  A stream of events is read by a \<^verbatim>\<open>for await\<close> loop that nothing stops: it goes on for
  as long as the stream delivers, also after the function that started it has returned.
  The program yields to such loops only where it waits for the service (an \<^verbatim>\<open>await\<close> of a
  request, or of the race against the timer); reading and writing files and running the
  compiler are synchronous.  A stream is therefore given by what it delivers during each
  of the waits that follow its creation, one after the other: some events, after which
  the stream stays open, ends, or fails.  A stream that has nothing left to say stays
  open and silent.
\<close>

datatype stream_status = Open | Closed | Failed exn

type_synonym stream = "(event list \<times> stream_status) list"

text \<open>
  The client: \<^verbatim>\<open>client.session.create()\<close> and \<^verbatim>\<open>client.session.prompt(...)\<close> throw or
  return an object whose \<^verbatim>\<open>data\<close> may be missing; \<^verbatim>\<open>client.event.subscribe()\<close> throws or
  returns a stream.  Each oracle is asked with the actions performed before the request.
\<close>

record client =
  session_create :: "trace \<Rightarrow> exn + string option"
  session_prompt :: "trace \<Rightarrow> string \<Rightarrow> req_part list \<Rightarrow> exn + part list option"
  event_subscribe :: "trace \<Rightarrow> exn + stream"

text \<open>
  A relay loop in progress (the promise \<^verbatim>\<open>streamDone\<close>): the session identifier that it
  was started with, whether a handler has been attached to the promise (\<^verbatim>\<open>Promise.race\<close>
  attaches one), and what its stream has yet to deliver.
\<close>

record relay_task =
  rsession :: string
  handled :: bool
  feed :: stream

text \<open>
  The state of a run: the actions performed so far, and the relay loops of earlier calls
  that are still in progress.
\<close>

record world =
  actions :: trace
  relays :: "relay_task list"

definition perform :: "action list \<Rightarrow> world \<Rightarrow> world" where
  "perform as w = w \<lparr> actions := actions w @ as \<rparr>"

text \<open>
  How a call ends: it returns a value, it throws an exception, or the process ends on a
  rejected promise that has no handler (Node.js then reports the rejection and exits
  with code 1; no \<^verbatim>\<open>catch\<close> of the program sees it).
\<close>

datatype 'a result = Ok 'a | Throw exn | Crash exn

text \<open>
  The body of the \<^verbatim>\<open>for await\<close> loop of both functions, for one event: nothing, a write
  of the payload to the standard output, or the exception of \<^verbatim>\<open>process.stdout.write\<close> for a
  payload that is not a string.
\<close>

datatype step = Skip | Write string | Raise exn

fun relay_step :: "string \<Rightarrow> event \<Rightarrow> step" where
  "relay_step sessionId NotAnEvent = Skip"
| "relay_step sessionId (Event ty None) = Skip"
| "relay_step sessionId (Event ty (Some p)) =
     (if ty = ''message.part.delta''
      then (if sessionID p = Some sessionId
            then (case delta p of
                    Some d \<Rightarrow> Write d
                  | None \<Rightarrow> Raise (Exn ''ERR_INVALID_ARG_TYPE''))
            else Skip)
      else Skip)"

text \<open>
  The loop on a list of events: what it writes, in order, and the exception that ends
  it, if one does.
\<close>

fun relay :: "string \<Rightarrow> event list \<Rightarrow> string list \<times> exn option" where
  "relay sessionId [] = ([], None)"
| "relay sessionId (e # es) =
     (case relay_step sessionId e of
        Skip \<Rightarrow> relay sessionId es
      | Write d \<Rightarrow> (case relay sessionId es of (ws, x) \<Rightarrow> (d # ws, x))
      | Raise x \<Rightarrow> ([], Some x))"

text \<open>
  A relay loop during one wait: what it writes, and whether it is still in progress
  afterwards, has finished (the stream ended), or has failed (the stream failed, or the
  loop body threw).
\<close>

datatype relay_state = Running relay_task | Resolved | Rejected exn

definition relay_batch :: "relay_task \<Rightarrow> string list \<times> relay_state" where
  "relay_batch r =
     (case feed r of
        [] \<Rightarrow> ([], Running r)
      | (events, status) # later \<Rightarrow>
          (case relay (rsession r) events of
             (ws, Some x) \<Rightarrow> (ws, Rejected x)
           | (ws, None) \<Rightarrow>
               (case status of
                  Open \<Rightarrow> (ws, Running (r \<lparr> feed := later \<rparr>))
                | Closed \<Rightarrow> (ws, Resolved)
                | Failed x \<Rightarrow> (ws, Rejected x))))"

text \<open>
  The relay loops of earlier calls during one wait, oldest first.  A loop that finishes
  leaves the list; so does one that fails when its promise has a handler; a failure
  without a handler ends the process.
\<close>

fun run_relays :: "relay_task list \<Rightarrow> trace \<Rightarrow> exn option \<times> relay_task list \<times> trace" where
  "run_relays [] tr = (None, [], tr)"
| "run_relays (r # rs) tr =
     (case relay_batch r of
        (ws, st) \<Rightarrow>
          (let tr1 = tr @ map StdoutWrite ws
           in case st of
                Running r' \<Rightarrow> (case run_relays rs tr1 of (c, rs', tr2) \<Rightarrow> (c, r' # rs', tr2))
              | Resolved \<Rightarrow> run_relays rs tr1
              | Rejected x \<Rightarrow>
                  if handled r then run_relays rs tr1
                  else (Some x, rs, tr1 @ [UnhandledRejection x])))"

text \<open>A wait for the service: \<open>Some\<close> is the rejection that ends the process during it.\<close>

definition await_io :: "world \<Rightarrow> exn option \<times> world" where
  "await_io w =
     (case run_relays (relays w) (actions w) of
        (c, rs, tr) \<Rightarrow> (c, \<lparr> actions = tr, relays = rs \<rparr>))"

definition createSession :: "client \<Rightarrow> world \<Rightarrow> string result \<times> world" where
  "createSession cl w =
     (case await_io (perform [CreateSession] w) of
        (Some x, w1) \<Rightarrow> (Crash x, w1)
      | (None, w1) \<Rightarrow>
          (case session_create cl (actions w) of
             Inl e \<Rightarrow> (Throw e, w1)
           | Inr None \<Rightarrow> (Throw (Exn ''Failed to create session''), w1)
           | Inr (Some sid) \<Rightarrow> (Ok sid, w1)))"

definition return_only :: string where
  "return_only = ''Return ONLY the modified file contents, wrapped in a single ```csharp code block. Do not include any explanation.''"

text \<open>
  \<^verbatim>\<open>await Promise.race([streamDone, new Promise((r) => setTimeout(r, 1000))])\<close>, given the
  relay loop of this call if it is still in progress.  The race attaches a handler to
  the promise of the loop.  If the loop has finished, nothing is waited for; otherwise
  the program waits until the loop finishes or fails, or for a second, and after that
  second the loop stays in progress among the loops of earlier calls.
\<close>

definition race :: "relay_task option \<Rightarrow> world \<Rightarrow> unit result \<times> world" where
  "race streamDone w =
     (case streamDone of
        None \<Rightarrow> (Ok (), w)
      | Some r \<Rightarrow>
          (case await_io w of
             (Some x, w1) \<Rightarrow> (Crash x, w1)
           | (None, w1) \<Rightarrow>
               (case relay_batch (r \<lparr> handled := True \<rparr>) of
                  (ws, st) \<Rightarrow>
                    (let w2 = perform (map StdoutWrite ws) w1
                     in case st of
                          Running r' \<Rightarrow> (Ok (), w2 \<lparr> relays := relays w2 @ [r'] \<rparr>)
                        | Resolved \<Rightarrow> (Ok (), w2)
                        | Rejected x \<Rightarrow> (Throw x, w2)))))"

text \<open>
  The end of both functions, from the answer to the prompt request on: if the request
  throws, the relay loop of this call stays in progress with a promise that has no
  handler; otherwise the race, the newline, and the extraction of the code.
\<close>

definition after_prompt ::
  "exn + part list option \<Rightarrow> relay_task option \<Rightarrow> world \<Rightarrow> string result \<times> world" where
  "after_prompt answer streamDone w =
     (case answer of
        Inl e \<Rightarrow>
          (Throw e, case streamDone of None \<Rightarrow> w | Some r \<Rightarrow> w \<lparr> relays := relays w @ [r] \<rparr>)
      | Inr data \<Rightarrow>
          (case race streamDone w of
             (Crash x, w1) \<Rightarrow> (Crash x, w1)
           | (Throw e, w1) \<Rightarrow> (Throw e, w1)
           | (Ok u, w1) \<Rightarrow>
               (let w2 = perform [StdoutWrite [CHR 0x0A]] w1
                in case data of
                     None \<Rightarrow> (Throw (Exn ''No response from LLM''), w2)
                   | Some ps \<Rightarrow> (Ok (extractCode ps), w2))))"

text \<open>
  What \<^verbatim>\<open>modifyFile\<close> and \<^verbatim>\<open>sendFollowUp\<close> share: subscribe, start the relay loop, send the
  prompt and wait for the answer, then go on as above.  While the prompt is pending the
  promise of the new relay loop has no handler: if the loop fails then, the process
  ends.
\<close>

definition prompt_with_relay ::
  "client \<Rightarrow> string \<Rightarrow> req_part list \<Rightarrow> world \<Rightarrow> string result \<times> world" where
  "prompt_with_relay cl sessionId parts w =
     (case await_io (perform [Subscribe] w) of
        (Some x, w1) \<Rightarrow> (Crash x, w1)
      | (None, w1) \<Rightarrow>
          (case event_subscribe cl (actions w) of
             Inl e \<Rightarrow> (Throw e, w1)
           | Inr stream \<Rightarrow>
               (case await_io (perform [Prompt sessionId parts] w1) of
                  (Some x, w2) \<Rightarrow> (Crash x, w2)
                | (None, w2) \<Rightarrow>
                    (case relay_batch \<lparr> rsession = sessionId, handled = False, feed = stream \<rparr> of
                       (ws, st) \<Rightarrow>
                         (let w3 = perform (map StdoutWrite ws) w2;
                              answer = session_prompt cl (actions w1) sessionId parts
                          in case st of
                               Rejected x \<Rightarrow> (Crash x, perform [UnhandledRejection x] w3)
                             | Resolved \<Rightarrow> after_prompt answer None w3
                             | Running r \<Rightarrow> after_prompt answer (Some r) w3)))))"

definition modifyFile ::
  "client \<Rightarrow> string \<Rightarrow> string \<Rightarrow> string \<Rightarrow> world \<Rightarrow> string result \<times> world" where
  "modifyFile cl sessionId prompt filePath w =
     (let instruction = js_join [CHR 0x0A] [prompt, [], return_only]
      in prompt_with_relay cl sessionId
           [ReqText instruction, ReqFile ''text/x-csharp'' filePath (''file://'' @ filePath)] w)"

definition sendFollowUp ::
  "client \<Rightarrow> string \<Rightarrow> string \<Rightarrow> world \<Rightarrow> string result \<times> world" where
  "sendFollowUp cl sessionId message w =
     prompt_with_relay cl sessionId [ReqText message] w"

section \<open>The pipeline (\<^verbatim>\<open>main\<close>)\<close>

text \<open>
  The Node.js runtime: \<^verbatim>\<open>readFileSync\<close> throws or returns the text, \<^verbatim>\<open>writeFileSync\<close> throws
  or returns, \<^verbatim>\<open>execSync\<close> of the build command answers as above, and \<^verbatim>\<open>resolve\<close> is a
  function of the path.  These calls are synchronous: no relay loop runs during them.
\<close>

record runtime =
  readFileSync :: "trace \<Rightarrow> string \<Rightarrow> exn + string"
  writeFileSync :: "trace \<Rightarrow> string \<Rightarrow> string \<Rightarrow> exn option"
  execSync :: "trace \<Rightarrow> string \<Rightarrow> exec_result"
  resolve :: "string \<Rightarrow> string"

text \<open>
  The command-line options that \<^verbatim>\<open>main\<close> reads after the files are found.  The options
  \<^verbatim>\<open>--build-filter\<close> and \<^verbatim>\<open>--retry-build\<close> take a path; the program tests them with
  \<^verbatim>\<open>if (opts.buildFilter)\<close> and \<^verbatim>\<open>if (opts.retryBuild)\<close>, which the empty string fails like
  a missing option.
\<close>

record opts =
  promptFile :: string
  dryRun :: bool
  buildFilter :: "string option"
  buildOutput :: bool
  retryBuild :: "string option"

fun truthy :: "string option \<Rightarrow> bool" where
  "truthy None = False"
| "truthy (Some s) = (s \<noteq> [])"

definition getBuildErrorFiles :: "runtime \<Rightarrow> string \<Rightarrow> bool \<Rightarrow> world \<Rightarrow> string list \<times> world" where
  "getBuildErrorFiles rt projectPath printOutput w =
     (let w1 = perform [Console (RunningBuild projectPath)] w;
          output = build_output (execSync rt (actions w1) projectPath);
          w2 = perform [ExecBuild projectPath] w1;
          errorFiles = parseErrorFiles (resolve rt) output
      in (errorFiles, if printOutput then perform [Console (BuildOutput output)] w2 else w2))"

definition getBuildErrors :: "runtime \<Rightarrow> string \<Rightarrow> string \<Rightarrow> world \<Rightarrow> string list \<times> world" where
  "getBuildErrors rt projectPath filePath w =
     (let output = build_output (execSync rt (actions w) projectPath)
      in (parseBuildErrors (resolve rt) output filePath, perform [ExecBuild projectPath] w))"

definition writeFile :: "runtime \<Rightarrow> string \<Rightarrow> string \<Rightarrow> world \<Rightarrow> exn option \<times> world" where
  "writeFile rt filePath content w =
     (case writeFileSync rt (actions w) filePath content of
        Some e \<Rightarrow> (Some e, perform [WriteFileFailed filePath] w)
      | None \<Rightarrow> (None, perform [WriteFile filePath content] w))"

definition followUp_message :: "string list \<Rightarrow> string" where
  "followUp_message errors =
     js_join [CHR 0x0A]
       ([''The file still has build errors. Please fix them.'', [], ''Errors:''] @ errors @
        [[], return_only])"

text \<open>
  The retry loop, \<^verbatim>\<open>for (let attempt = 1; attempt <= maxRetries; attempt++)\<close>, from the
  value \<open>attempt\<close> on, with \<open>limit\<close> for \<^verbatim>\<open>maxRetries\<close> and \<open>target\<close> for \<^verbatim>\<open>opts.retryBuild\<close>.
  The result is \<open>Throw\<close> when a call in it throws.
\<close>

function retry_loop ::
  "client \<Rightarrow> runtime \<Rightarrow> string \<Rightarrow> string \<Rightarrow> string \<Rightarrow> nat \<Rightarrow> nat \<Rightarrow> world \<Rightarrow> unit result \<times> world" where
  "retry_loop cl rt target filePath sessionId limit attempt w =
     (if attempt \<le> limit then
        (let w1 = perform [Console (BuildCheck attempt limit)] w;
             (errors, w2) = getBuildErrors rt target filePath w1
         in if errors = [] then (Ok (), perform [Console BuildSucceeded] w2)
            else
              (let w3 = perform [Console (SendingBack (length errors))] w2
               in case sendFollowUp cl sessionId (followUp_message errors) w3 of
                    (Crash x, w4) \<Rightarrow> (Crash x, w4)
                  | (Throw e, w4) \<Rightarrow> (Throw e, w4)
                  | (Ok modified, w4) \<Rightarrow>
                      (case writeFile rt filePath modified w4 of
                         (Some e, w5) \<Rightarrow> (Throw e, w5)
                       | (None, w5) \<Rightarrow>
                           (let w6 = perform [Console WrittenRetry] w5;
                                w7 = (if attempt = limit then
                                        (let (remaining, w') = getBuildErrors rt target filePath w6
                                         in if remaining \<noteq> []
                                            then perform [Console (StillErrors (length remaining) limit)] w'
                                            else perform [Console BuildSucceeded] w')
                                      else w6)
                            in retry_loop cl rt target filePath sessionId limit (attempt + 1) w7))))
      else (Ok (), w))"
  by pat_completeness auto
termination
  by (relation "measure (\<lambda>(cl, rt, target, filePath, sessionId, limit, attempt, w). limit + 1 - attempt)") auto

declare retry_loop.simps [simp del]

definition maxRetries :: nat where
  "maxRetries = 3"

text \<open>The body of the \<^verbatim>\<open>try\<close> block for one file; \<open>Throw\<close> is the exception that leaves it.\<close>

definition try_block ::
  "client \<Rightarrow> runtime \<Rightarrow> opts \<Rightarrow> string \<Rightarrow> string \<Rightarrow> string \<Rightarrow> string \<Rightarrow> world \<Rightarrow> unit result \<times> world" where
  "try_block cl rt opts prompt filePath fileContents sessionId w =
     (case modifyFile cl sessionId prompt filePath w of
        (Crash x, w1) \<Rightarrow> (Crash x, w1)
      | (Throw e, w1) \<Rightarrow> (Throw e, w1)
      | (Ok modified, w1) \<Rightarrow>
          if fileContents = modified then (Ok (), perform [Console NoChanges] w1)
          else if dryRun opts then (Ok (), perform [Console (DryRun modified)] w1)
          else
            (case writeFile rt filePath modified w1 of
               (Some e, w2) \<Rightarrow> (Throw e, w2)
             | (None, w2) \<Rightarrow>
                 (let w3 = perform [Console Written] w2
                  in case retryBuild opts of
                       None \<Rightarrow> (Ok (), w3)
                     | Some target \<Rightarrow>
                         if truthy (retryBuild opts)
                         then retry_loop cl rt target filePath sessionId maxRetries 1 w3
                         else (Ok (), w3))))"

text \<open>
  The \<^verbatim>\<open>try\<close> statement with its \<^verbatim>\<open>catch\<close>, which reports the exception.  The end of the
  process is not an exception.
\<close>

definition try_catch ::
  "client \<Rightarrow> runtime \<Rightarrow> opts \<Rightarrow> string \<Rightarrow> string \<Rightarrow> string \<Rightarrow> string \<Rightarrow> world \<Rightarrow> unit result \<times> world" where
  "try_catch cl rt opts prompt filePath fileContents sessionId w =
     (case try_block cl rt opts prompt filePath fileContents sessionId w of
        (Crash x, w1) \<Rightarrow> (Crash x, w1)
      | (Throw e, w1) \<Rightarrow> (Ok (), perform [Console (ErrorProcessing filePath e)] w1)
      | (Ok u, w1) \<Rightarrow> (Ok (), w1))"

text \<open>
  The loop over the files, \<^verbatim>\<open>for (let i = 0; i < files.length; i++)\<close>, given the files
  from index \<open>i\<close> on and the number \<open>n\<close> of all files.  \<open>Throw\<close> is an exception that leaves
  the loop, and so \<^verbatim>\<open>main\<close>.
\<close>

fun files_loop ::
  "client \<Rightarrow> runtime \<Rightarrow> opts \<Rightarrow> string \<Rightarrow> nat \<Rightarrow> nat \<Rightarrow> string list \<Rightarrow> world \<Rightarrow> unit result \<times> world" where
  "files_loop cl rt opts prompt n i [] w = (Ok (), w)"
| "files_loop cl rt opts prompt n i (filePath # rest) w =
     (let w1 = perform [Console (Processing (i + 1) n filePath)] w
      in case readFileSync rt (actions w1) filePath of
           Inl e \<Rightarrow> (Throw e, perform [ReadFile filePath] w1)
         | Inr fileContents \<Rightarrow>
             (case createSession cl (perform [ReadFile filePath] w1) of
                (Crash x, w2) \<Rightarrow> (Crash x, w2)
              | (Throw e, w2) \<Rightarrow> (Throw e, w2)
              | (Ok sessionId, w2) \<Rightarrow>
                  (case try_catch cl rt opts prompt filePath fileContents sessionId w2 of
                     (Crash x, w3) \<Rightarrow> (Crash x, w3)
                   | (Throw e, w3) \<Rightarrow> (Throw e, w3)
                   | (Ok u, w3) \<Rightarrow> files_loop cl rt opts prompt n (i + 1) rest w3)))"

text \<open>How a run ends: \<^verbatim>\<open>main\<close> returns, or the process exits with a code.\<close>

datatype outcome = Returned | Exit nat

definition endsWith_cs :: "string \<Rightarrow> bool" where
  "endsWith_cs f = suffix ''.cs'' f"

text \<open>
  The files to process, from \<^verbatim>\<open>files = [...new Set(...)]\<close> to the test of
  \<^verbatim>\<open>files.length === 0\<close>: whether the program exits with code 0 because the build filter
  finds nothing, and the files that are left otherwise.  The expansion of the glob
  patterns is not modelled: \<open>found\<close> is the content of \<^verbatim>\<open>files\<close> after it, before the filter
  on \<^verbatim>\<open>.cs\<close>.
\<close>

definition select_files :: "runtime \<Rightarrow> opts \<Rightarrow> string list \<Rightarrow> world \<Rightarrow> bool \<times> string list \<times> world" where
  "select_files rt opts found w =
     (let files = new_Set (map (resolve rt) (filter endsWith_cs found))
      in case buildFilter opts of
           None \<Rightarrow> (False, files, w)
         | Some target \<Rightarrow>
             if truthy (buildFilter opts) then
               (let (errorFiles, w') = getBuildErrorFiles rt target (buildOutput opts) w
                in if errorFiles = [] then (True, files, perform [Console NothingToProcess] w')
                   else (False, filter (\<lambda>f. f \<in> set errorFiles) files,
                         perform [Console (BuildErrorsFound (length errorFiles) errorFiles)] w'))
             else (False, files, w))"

text \<open>\<^verbatim>\<open>main\<close> and its \<^verbatim>\<open>catch\<close> handler.\<close>

definition main_body ::
  "client \<Rightarrow> runtime \<Rightarrow> opts \<Rightarrow> string list \<Rightarrow> world \<Rightarrow> outcome result \<times> world" where
  "main_body cl rt opts found w =
     (let promptPath = resolve rt (promptFile opts)
      in case readFileSync rt (actions w) promptPath of
           Inl e \<Rightarrow> (Throw e, perform [ReadFile promptPath] w)
         | Inr prompt \<Rightarrow>
             (case select_files rt opts found (perform [ReadFile promptPath] w) of
                (exit0, files, w1) \<Rightarrow>
                  if exit0 then (Ok (Exit 0), w1)
                  else if files = [] then (Ok (Exit 1), perform [Console NoCsFilesFound] w1)
                  else
                    (case files_loop cl rt opts prompt (length files) 0 files
                            (perform [Console (FoundFiles (length files))] w1) of
                       (Crash x, w2) \<Rightarrow> (Crash x, w2)
                     | (Throw e, w2) \<Rightarrow> (Throw e, w2)
                     | (Ok u, w2) \<Rightarrow> (Ok Returned, perform [Console Done] w2))))"

definition main :: "client \<Rightarrow> runtime \<Rightarrow> opts \<Rightarrow> string list \<Rightarrow> world \<Rightarrow> outcome \<times> world" where
  "main cl rt opts found w =
     (case main_body cl rt opts found w of
        (Crash x, w1) \<Rightarrow> (Exit 1, w1)
      | (Throw e, w1) \<Rightarrow> (Exit 1, perform [Console (FatalError e)] w1)
      | (Ok out, w1) \<Rightarrow> (out, w1))"

text \<open>The state in which a run starts.\<close>

definition start :: world where
  "start = \<lparr> actions = [], relays = [] \<rparr>"

section \<open>Observations on runs and feeds\<close>

text \<open>The session identifier that an event of the feed carries, if it carries one.\<close>

fun event_session :: "event \<Rightarrow> string option" where
  "event_session NotAnEvent = None"
| "event_session (Event ty None) = None"
| "event_session (Event ty (Some p)) = sessionID p"

text \<open>An event whose session identifier differs from that of a relay loop.\<close>

definition foreign :: "string \<Rightarrow> event \<Rightarrow> bool" where
  "foreign sessionId e = (case event_session e of None \<Rightarrow> False | Some s \<Rightarrow> s \<noteq> sessionId)"

text \<open>
  The active session at a point of a run is the session of the latest prompt request.
  \<open>written_during\<close> gives the texts written to the standard output in a trace, in order,
  each with the session that was active when it was written.
\<close>

fun written_during :: "string \<Rightarrow> trace \<Rightarrow> (string \<times> string) list" where
  "written_during s [] = []"
| "written_during s (Prompt s' parts # tr) = written_during s' tr"
| "written_during s (StdoutWrite t # tr) = (s, t) # written_during s tr"
| "written_during s (a # tr) = written_during s tr"

text \<open>
  Counting in a run: the compiler invocations, the prompt requests, and the follow-up
  requests (the prompt requests whose only part is a text, as \<^verbatim>\<open>sendFollowUp\<close> sends them;
  the first request for a file has a file part too).
\<close>

fun is_exec :: "action \<Rightarrow> bool" where
  "is_exec (ExecBuild p) = True"
| "is_exec a = False"

fun is_prompt :: "action \<Rightarrow> bool" where
  "is_prompt (Prompt s parts) = True"
| "is_prompt a = False"

fun is_followUp :: "action \<Rightarrow> bool" where
  "is_followUp (Prompt s [ReqText m]) = True"
| "is_followUp a = False"

definition builds :: "world \<Rightarrow> nat" where
  "builds w = length (filter is_exec (actions w))"

definition prompts :: "world \<Rightarrow> nat" where
  "prompts w = length (filter is_prompt (actions w))"

definition followUps :: "world \<Rightarrow> nat" where
  "followUps w = length (filter is_followUp (actions w))"

text \<open>The files that the loop has started to process, and the completed writes to a file.\<close>

fun processed :: "action \<Rightarrow> string list" where
  "processed (Console (Processing i n f)) = [f]"
| "processed a = []"

definition visited :: "world \<Rightarrow> string list" where
  "visited w = concat (map processed (actions w))"

fun is_write_to :: "string \<Rightarrow> action \<Rightarrow> bool" where
  "is_write_to f (WriteFile p c) = (p = f)"
| "is_write_to f a = False"

definition writes_to :: "string \<Rightarrow> world \<Rightarrow> trace" where
  "writes_to f w = filter (is_write_to f) (actions w)"

text \<open>The exceptions that the \<^verbatim>\<open>catch\<close> of a file has reported.\<close>

fun report_of :: "action \<Rightarrow> (string \<times> exn) list" where
  "report_of (Console (ErrorProcessing f e)) = [(f, e)]"
| "report_of a = []"

definition reported :: "world \<Rightarrow> (string \<times> exn) list" where
  "reported w = concat (map report_of (actions w))"

text \<open>
  A stream is steady when it never fails and every delta event on it carries a string;
  a state is calm when the streams of its relay loops are steady.
\<close>

fun string_delta :: "event \<Rightarrow> bool" where
  "string_delta (Event ty (Some p)) = (delta p \<noteq> None)"
| "string_delta e = True"

fun stays :: "stream_status \<Rightarrow> bool" where
  "stays (Failed x) = False"
| "stays s = True"

definition steady :: "stream \<Rightarrow> bool" where
  "steady s = list_all (\<lambda>b. list_all string_delta (fst b) \<and> stays (snd b)) s"

definition calm :: "world \<Rightarrow> bool" where
  "calm w = list_all (\<lambda>r. steady (feed r)) (relays w)"

text \<open>
  The actions that none of the observations above counts: a relay loop and a wait
  perform no other.
\<close>

fun quiet :: "action \<Rightarrow> bool" where
  "quiet (Prompt s parts) = False"
| "quiet (WriteFile p c) = False"
| "quiet (ExecBuild p) = False"
| "quiet (Console c) = False"
| "quiet a = True"

text \<open>A state that extends another one by quiet actions only.\<close>

definition quietly :: "world \<Rightarrow> world \<Rightarrow> bool" where
  "quietly w w' =
     (prefix (actions w) (actions w') \<and> list_all quiet (drop (length (actions w)) (actions w')))"

section \<open>Sample worlds\<close>

text \<open>
  Concrete clients and runtimes on which the functions are evaluated: a service that
  answers every prompt with a fenced rewrite, variants of it whose follow-up requests,
  feed subscription, session creation or event stream fail, a runtime whose compiler
  always reports an error in \<^verbatim>\<open>/w/a.cs\<close>, one whose compiler reports an error in a file
  under a directory with a bracket in its name, and one that cannot read any file.
\<close>

definition sample_rewrite :: "part list" where
  "sample_rewrite = [text_part ''```csharp\<newline>class A { }\<newline>```'']"

definition helpful_client :: client where
  "helpful_client = \<lparr>
     session_create = (\<lambda>tr. Inr (Some ''s1'')),
     session_prompt = (\<lambda>tr sid parts. Inr (Some sample_rewrite)),
     event_subscribe = (\<lambda>tr. Inr []) \<rparr>"


definition feed_failing_client :: client where
  "feed_failing_client = helpful_client \<lparr> event_subscribe := (\<lambda>tr. Inl (Exn ''fetch failed'')) \<rparr>"

definition session_failing_client :: client where
  "session_failing_client = helpful_client \<lparr> session_create := (\<lambda>tr. Inl (Exn ''fetch failed'')) \<rparr>"

definition stream_failing_client :: client where
  "stream_failing_client = helpful_client \<lparr>
     event_subscribe := (\<lambda>tr. Inr [([], Failed (Exn ''terminated''))]) \<rparr>"

definition failing_build :: runtime where
  "failing_build = \<lparr>
     readFileSync = (\<lambda>tr p. Inr ''class A {}''),
     writeFileSync = (\<lambda>tr p c. None),
     execSync = (\<lambda>tr p. ExecFailed (Some ''/w/a.cs(1,9): error CS1002: ; expected'') None),
     resolve = posix_resolve ''/w'' \<rparr>"



definition bracket_build :: runtime where
  "bracket_build = failing_build \<lparr> execSync := (\<lambda>tr p.
     ExecFailed (Some ''/w/src [v2]/Program.cs(12,4): error CS0103: no such name'') None) \<rparr>"

definition retry_opts :: opts where
  "retry_opts = \<lparr> promptFile = ''prompt.txt'', dryRun = False, buildFilter = None,
     buildOutput = False, retryBuild = Some ''/w/app.sln'' \<rparr>"

definition filter_opts :: opts where
  "filter_opts = retry_opts \<lparr> buildFilter := Some ''/w/app.sln'' \<rparr>"

text \<open>A feed in which events of another session are interleaved.\<close>

definition delta_event :: "string \<Rightarrow> string \<Rightarrow> event" where
  "delta_event s d = Event ''message.part.delta'' (Some \<lparr> sessionID = Some s, delta = Some d \<rparr>)"

definition mixed_feed :: "event list" where
  "mixed_feed = [delta_event ''other'' ''x1'', delta_event ''s1'' ''cla'', delta_event ''other'' ''x2'',
     NotAnEvent, delta_event ''other'' ''x3'', delta_event ''s1'' ''ss'', Event ''session.idle'' None]"

text \<open>
  A service with two sessions: the first call of \<^verbatim>\<open>client.session.create()\<close> answers
  \<^verbatim>\<open>s1\<close>, the later ones \<^verbatim>\<open>s2\<close>.  The stream of the first subscription delivers a delta of
  \<^verbatim>\<open>s1\<close> while the first prompt is pending, nothing during the next three waits, and one
  more delta of \<^verbatim>\<open>s1\<close> during the wait after them; the stream of a later subscription
  delivers a delta of \<^verbatim>\<open>s2\<close>.  Every prompt is answered with the file as it is.
\<close>

definition first_stream :: stream where
  "first_stream = [([delta_event ''s1'' ''one''], Open), ([], Open), ([], Open), ([], Open),
     ([delta_event ''s1'' ''LATE''], Open)]"

definition second_stream :: stream where
  "second_stream = [([delta_event ''s2'' ''two''], Open)]"

definition two_session_client :: client where
  "two_session_client = \<lparr>
     session_create = (\<lambda>tr. if CreateSession \<in> set tr then Inr (Some ''s2'') else Inr (Some ''s1'')),
     session_prompt = (\<lambda>tr sid parts. Inr (Some [text_part ''```csharp\<newline>class A {}\<newline>```''])),
     event_subscribe = (\<lambda>tr. if Subscribe \<in> set tr then Inr second_stream else Inr first_stream) \<rparr>"

definition unchanged_files :: runtime where
  "unchanged_files = failing_build \<lparr> readFileSync := (\<lambda>tr p. Inr ''class A {}\<newline>'') \<rparr>"

definition plain_opts :: opts where
  "plain_opts = \<lparr> promptFile = ''prompt.txt'', dryRun = False, buildFilter = None,
     buildOutput = False, retryBuild = None \<rparr>"

text \<open>Sample build outputs.\<close>

definition sample_line :: string where
  "sample_line = ''  /w/a.cs[3;7): error CS1002: ; expected''"

definition sample_output :: string where
  "sample_output = ''/w/a.cs(1,9): error CS1002: ; expected\<newline>/w/b.cs(2,1): warning CS0168: unused\<newline>Build FAILED.''"

section \<open>What the expressions accept\<close>

text \<open>
  The words that an expression matches, without the order of the attempts: \<open>rx_run r s\<close>
  holds exactly the remainders of \<open>s\<close> after a prefix in \<open>rx_lang r\<close>.
\<close>

primrec rx_lang :: "rx \<Rightarrow> string set" where
  "rx_lang (Lit l) = {l}"
| "rx_lang (Cls p) = {[c] | c. p c}"
| "rx_lang (Seq a b) = {u @ v | u v. u \<in> rx_lang a \<and> v \<in> rx_lang b}"
| "rx_lang (Alt a b) = rx_lang a \<union> rx_lang b"
| "rx_lang (Opt a) = insert [] (rx_lang a)"
| "rx_lang (Star p) = {w. list_all p w}"
| "rx_lang (Plus p) = {w. w \<noteq> [] \<and> list_all p w}"
| "rx_lang (LazyStar p) = {w. list_all p w}"

text \<open>The end of the location expression, \<^verbatim>\<open>\s*:\s*error\s\<close>.\<close>

definition severity_rx :: rx where
  "severity_rx = Seq (Star js_space) (Seq (Lit '':'') (Seq (Star js_space)
         (Seq (Lit ''error'') (Cls js_space))))"

text \<open>
  The notation of an error line, written out: white space, a path that ends in \<^verbatim>\<open>.cs\<close>
  and holds no line terminator, an opening \<^verbatim>\<open>(\<close> or \<^verbatim>\<open>[\<close>, digits, a comma or a semicolon,
  digits, a closing \<^verbatim>\<open>)\<close> or \<^verbatim>\<open>]\<close>, then white space, a colon, white space, the word
  \<^verbatim>\<open>error\<close> and a white-space character; anything may follow.
\<close>

definition severity_shape :: "string \<Rightarrow> bool" where
  "severity_shape w =
     (\<exists>ws1 ws2 sp. w = ws1 @ '':'' @ ws2 @ ''error'' @ [sp] \<and>
        list_all js_space ws1 \<and> list_all js_space ws2 \<and> js_space sp)"

definition location_shape :: "string \<Rightarrow> bool" where
  "location_shape loc =
     (\<exists>opn d1 sep d2 cls w.
        loc = opn # d1 @ sep # d2 @ cls # w \<and>
        is_open opn \<and> d1 \<noteq> [] \<and> list_all js_digit d1 \<and> is_sep sep \<and>
        d2 \<noteq> [] \<and> list_all js_digit d2 \<and> is_close cls \<and> severity_shape w)"

definition error_line_shape :: "string \<Rightarrow> bool" where
  "error_line_shape line =
     (\<exists>ws pre loc rest.
        line = ws @ pre @ ''.cs'' @ loc @ rest \<and>
        list_all js_space ws \<and> list_all js_dot pre \<and> location_shape loc)"

text \<open>
  No path that \<^verbatim>\<open>getBuildErrorFiles\<close> captures in the output holds an opening bracket.
\<close>

definition bracket_free_paths :: "string \<Rightarrow> bool" where
  "bracket_free_paths output =
     list_all (\<lambda>line. case js_match errorFiles_re line of
                        None \<Rightarrow> True
                      | Some path \<Rightarrow> list_all (\<lambda>c. \<not> is_open c) path)
       (js_split is_newline output)"

section \<open>Regular expressions: proofs\<close>

lemma greedy_star_set: "set (greedy_star p s) = {t. \<exists>w. s = w @ t \<and> list_all p w}"
proof (induction s)
  case Nil
  show ?case by auto
next
  case (Cons c cs)
  have "{t. \<exists>w. c # cs = w @ t \<and> list_all p w}
        = insert (c # cs) (if p c then {t. \<exists>w. cs = w @ t \<and> list_all p w} else {})"
    (is "?L = ?R")
  proof (rule set_eqI)
    fix t
    show "t \<in> ?L \<longleftrightarrow> t \<in> ?R"
    proof
      assume "t \<in> ?L"
      then obtain w where w: "c # cs = w @ t" "list_all p w" by blast
      show "t \<in> ?R"
      proof (cases w)
        case Nil
        with w show ?thesis by simp
      next
        case (Cons d ds)
        with w have "p c" "cs = ds @ t" "list_all p ds" by simp_all
        then show ?thesis by auto
      qed
    next
      assume "t \<in> ?R"
      then consider "t = c # cs" | "p c" "\<exists>w. cs = w @ t \<and> list_all p w"
        by (auto split: if_splits)
      then show "t \<in> ?L"
      proof cases
        case 1
        then have "c # cs = [] @ t \<and> list_all p []" by simp
        then show ?thesis by blast
      next
        case 2
        then obtain w where "cs = w @ t" "list_all p w" by blast
        with 2(1) have "c # cs = (c # w) @ t \<and> list_all p (c # w)" by simp
        then show ?thesis by blast
      qed
    qed
  qed
  with Cons show ?case by auto
qed

lemma lazy_star_set: "set (lazy_star p s) = set (greedy_star p s)"
  by (induction s) auto

lemma rx_run_lang: "set (rx_run r s) = {t. \<exists>w \<in> rx_lang r. s = w @ t}"
proof (induction r arbitrary: s)
  case (Lit l)
  show ?case by (auto simp: prefix_def)
next
  case (Cls p)
  show ?case by (cases s) auto
next
  case (Seq a b)
  show ?case
  proof (rule set_eqI)
    fix t
    have "t \<in> set (rx_run (Seq a b) s) \<longleftrightarrow> (\<exists>m \<in> set (rx_run a s). t \<in> set (rx_run b m))"
      by auto
    also have "\<dots> \<longleftrightarrow> (\<exists>m. (\<exists>u \<in> rx_lang a. s = u @ m) \<and> (\<exists>v \<in> rx_lang b. m = v @ t))"
      unfolding Seq.IH by blast
    also have "\<dots> \<longleftrightarrow> (\<exists>u \<in> rx_lang a. \<exists>v \<in> rx_lang b. s = u @ v @ t)"
      by blast
    also have "\<dots> \<longleftrightarrow> t \<in> {t. \<exists>w \<in> rx_lang (Seq a b). s = w @ t}"
      by (simp, metis append.assoc)
    finally show "t \<in> set (rx_run (Seq a b) s) \<longleftrightarrow> t \<in> {t. \<exists>w \<in> rx_lang (Seq a b). s = w @ t}" .
  qed
next
  case (Alt a b)
  then show ?case by auto
next
  case (Opt a)
  then show ?case by auto
next
  case (Star p)
  show ?case by (auto simp: greedy_star_set)
next
  case (Plus p)
  show ?case
  proof (cases s)
    case Nil
    then show ?thesis by auto
  next
    case (Cons c cs)
    show ?thesis
    proof (rule set_eqI)
      fix t
      have "t \<in> set (rx_run (Plus p) s) \<longleftrightarrow> p c \<and> (\<exists>w. cs = w @ t \<and> list_all p w)"
        using Cons by (simp add: greedy_star_set)
      also have "\<dots> \<longleftrightarrow> (\<exists>w. w \<noteq> [] \<and> list_all p w \<and> c # cs = w @ t)"
      proof
        assume "p c \<and> (\<exists>w. cs = w @ t \<and> list_all p w)"
        then obtain w where "p c" "cs = w @ t" "list_all p w" by blast
        then have "c # w \<noteq> [] \<and> list_all p (c # w) \<and> c # cs = (c # w) @ t" by simp
        then show "\<exists>w. w \<noteq> [] \<and> list_all p w \<and> c # cs = w @ t" by blast
      next
        assume "\<exists>w. w \<noteq> [] \<and> list_all p w \<and> c # cs = w @ t"
        then obtain w where w: "w \<noteq> []" "list_all p w" "c # cs = w @ t" by blast
        then obtain d ds where "w = d # ds" by (cases w) auto
        with w show "p c \<and> (\<exists>w. cs = w @ t \<and> list_all p w)" by auto
      qed
      finally show "t \<in> set (rx_run (Plus p) s) \<longleftrightarrow> t \<in> {t. \<exists>w \<in> rx_lang (Plus p). s = w @ t}"
        using Cons by auto
    qed
  qed
next
  case (LazyStar p)
  show ?case by (auto simp: lazy_star_set greedy_star_set)
qed


lemma in_lang_Seq: "w \<in> rx_lang (Seq a b) \<longleftrightarrow> (\<exists>u v. w = u @ v \<and> u \<in> rx_lang a \<and> v \<in> rx_lang b)"
  by auto

lemma in_lang_Cls_Seq:
  "w \<in> rx_lang (Seq (Cls p) b) \<longleftrightarrow> (\<exists>c v. w = c # v \<and> p c \<and> v \<in> rx_lang b)"
proof
  assume "w \<in> rx_lang (Seq (Cls p) b)"
  then obtain u v where uv: "w = u @ v" "u \<in> rx_lang (Cls p)" "v \<in> rx_lang b"
    unfolding in_lang_Seq by blast
  from uv(2) obtain c where "u = [c]" "p c" by auto
  with uv have "w = c # v \<and> p c \<and> v \<in> rx_lang b" by simp
  then show "\<exists>c v. w = c # v \<and> p c \<and> v \<in> rx_lang b" by blast
next
  assume "\<exists>c v. w = c # v \<and> p c \<and> v \<in> rx_lang b"
  then obtain c v where cv: "w = c # v" "p c" "v \<in> rx_lang b" by blast
  then have "w = [c] @ v \<and> [c] \<in> rx_lang (Cls p) \<and> v \<in> rx_lang b" by simp
  then show "w \<in> rx_lang (Seq (Cls p) b)" unfolding in_lang_Seq by blast
qed

lemma in_lang_Lit_Seq:
  "w \<in> rx_lang (Seq (Lit l) b) \<longleftrightarrow> (\<exists>v. w = l @ v \<and> v \<in> rx_lang b)"
  by auto

lemma in_lang_Plus_Seq:
  "w \<in> rx_lang (Seq (Plus p) b) \<longleftrightarrow> (\<exists>d v. w = d @ v \<and> d \<noteq> [] \<and> list_all p d \<and> v \<in> rx_lang b)"
  by auto

lemma in_lang_Star_Seq:
  "w \<in> rx_lang (Seq (Star p) b) \<longleftrightarrow> (\<exists>d v. w = d @ v \<and> list_all p d \<and> v \<in> rx_lang b)"
  by auto

lemma in_lang_Cls: "w \<in> rx_lang (Cls p) \<longleftrightarrow> (\<exists>c. w = [c] \<and> p c)"
  by auto

lemma severity_lang: "w \<in> rx_lang severity_rx \<longleftrightarrow> severity_shape w"
proof
  assume "w \<in> rx_lang severity_rx"
  then obtain ws1 v1 where 1: "w = ws1 @ v1" "list_all js_space ws1"
      "v1 \<in> rx_lang (Seq (Lit '':'') (Seq (Star js_space) (Seq (Lit ''error'') (Cls js_space))))"
    unfolding severity_rx_def in_lang_Star_Seq by blast
  from 1(3) obtain v2 where 2: "v1 = '':'' @ v2"
      "v2 \<in> rx_lang (Seq (Star js_space) (Seq (Lit ''error'') (Cls js_space)))"
    unfolding in_lang_Lit_Seq by blast
  from 2(2) obtain ws2 v3 where 3: "v2 = ws2 @ v3" "list_all js_space ws2"
      "v3 \<in> rx_lang (Seq (Lit ''error'') (Cls js_space))"
    unfolding in_lang_Star_Seq by blast
  from 3(3) obtain v4 where 4: "v3 = ''error'' @ v4" "v4 \<in> rx_lang (Cls js_space)"
    unfolding in_lang_Lit_Seq by blast
  from 4(2) obtain sp where 5: "v4 = [sp]" "js_space sp"
    unfolding in_lang_Cls by blast
  have "w = ws1 @ '':'' @ ws2 @ ''error'' @ [sp]"
    unfolding 1(1) 2(1) 3(1) 4(1) 5(1) ..
  with 1(2) 3(2) 5(2) show "severity_shape w"
    unfolding severity_shape_def by blast
next
  assume "severity_shape w"
  then obtain ws1 ws2 sp where w: "w = ws1 @ '':'' @ ws2 @ ''error'' @ [sp]"
    "list_all js_space ws1" "list_all js_space ws2" "js_space sp"
    unfolding severity_shape_def by blast
  have 5: "[sp] \<in> rx_lang (Cls js_space)" using w(4) unfolding in_lang_Cls by blast
  have 4: "''error'' @ [sp] \<in> rx_lang (Seq (Lit ''error'') (Cls js_space))"
    unfolding in_lang_Lit_Seq using 5 by blast
  have 3: "ws2 @ ''error'' @ [sp] \<in> rx_lang (Seq (Star js_space) (Seq (Lit ''error'') (Cls js_space)))"
    unfolding in_lang_Star_Seq using 4 w(3) by blast
  have 2: "'':'' @ ws2 @ ''error'' @ [sp]
      \<in> rx_lang (Seq (Lit '':'') (Seq (Star js_space) (Seq (Lit ''error'') (Cls js_space))))"
    unfolding in_lang_Lit_Seq using 3 by blast
  show "w \<in> rx_lang severity_rx"
    unfolding severity_rx_def w(1) in_lang_Star_Seq using 2 w(2) by blast
qed

lemma location_error_alt:
  "location_error = Seq (Cls is_open) (Seq (Plus js_digit) (Seq (Cls is_sep) (Seq (Plus js_digit)
       (Seq (Cls is_close) severity_rx))))"
  by (simp add: location_error_def severity_rx_def)

lemma location_lang: "loc \<in> rx_lang location_error \<longleftrightarrow> location_shape loc"
proof
  assume "loc \<in> rx_lang location_error"
  then obtain opn v1 where 1: "loc = opn # v1" "is_open opn"
      "v1 \<in> rx_lang (Seq (Plus js_digit) (Seq (Cls is_sep) (Seq (Plus js_digit) (Seq (Cls is_close) severity_rx))))"
    unfolding location_error_alt in_lang_Cls_Seq by blast
  from 1(3) obtain d1 v2 where 2: "v1 = d1 @ v2" "d1 \<noteq> []" "list_all js_digit d1"
      "v2 \<in> rx_lang (Seq (Cls is_sep) (Seq (Plus js_digit) (Seq (Cls is_close) severity_rx)))"
    unfolding in_lang_Plus_Seq by blast
  from 2(4) obtain sep v3 where 3: "v2 = sep # v3" "is_sep sep"
      "v3 \<in> rx_lang (Seq (Plus js_digit) (Seq (Cls is_close) severity_rx))"
    unfolding in_lang_Cls_Seq by blast
  from 3(3) obtain d2 v4 where 4: "v3 = d2 @ v4" "d2 \<noteq> []" "list_all js_digit d2"
      "v4 \<in> rx_lang (Seq (Cls is_close) severity_rx)"
    unfolding in_lang_Plus_Seq by blast
  from 4(4) obtain cls w where 5: "v4 = cls # w" "is_close cls" "w \<in> rx_lang severity_rx"
    unfolding in_lang_Cls_Seq by blast
  have "loc = opn # d1 @ sep # d2 @ cls # w"
    unfolding 1(1) 2(1) 3(1) 4(1) 5(1) ..
  with 1(2) 2(2,3) 3(2) 4(2,3) 5(2,3) show "location_shape loc"
    unfolding location_shape_def severity_lang by blast
next
  assume "location_shape loc"
  then obtain opn d1 sep d2 cls w where l: "loc = opn # d1 @ sep # d2 @ cls # w"
    "is_open opn" "d1 \<noteq> []" "list_all js_digit d1" "is_sep sep"
    "d2 \<noteq> []" "list_all js_digit d2" "is_close cls" "severity_shape w"
    unfolding location_shape_def by blast
  have 5: "cls # w \<in> rx_lang (Seq (Cls is_close) severity_rx)"
    unfolding in_lang_Cls_Seq severity_lang using l(8,9) by blast
  have 4: "d2 @ cls # w \<in> rx_lang (Seq (Plus js_digit) (Seq (Cls is_close) severity_rx))"
    unfolding in_lang_Plus_Seq using 5 l(6,7) by blast
  have 3: "sep # d2 @ cls # w \<in> rx_lang (Seq (Cls is_sep) (Seq (Plus js_digit) (Seq (Cls is_close) severity_rx)))"
    unfolding in_lang_Cls_Seq using 4 l(5) by blast
  have 2: "d1 @ sep # d2 @ cls # w
      \<in> rx_lang (Seq (Plus js_digit) (Seq (Cls is_sep) (Seq (Plus js_digit) (Seq (Cls is_close) severity_rx))))"
    unfolding in_lang_Plus_Seq using 3 l(3,4) by blast
  show "loc \<in> rx_lang location_error"
    unfolding location_error_alt l(1) in_lang_Cls_Seq using 2 l(2) by blast
qed

lemma in_image_const: "g \<in> (\<lambda>x. k) ` set ys \<longleftrightarrow> ys \<noteq> [] \<and> g = k"
  by (cases ys) auto

lemma in_captures:
  "g \<in> set (concat (map (\<lambda>s2. map (\<lambda>s3. take (length s1 - length s2) s1) (rx_run r s2)) xs))
   \<longleftrightarrow> (\<exists>s2 \<in> set xs. rx_run r s2 \<noteq> [] \<and> g = take (length s1 - length s2) s1)"
  by (simp add: in_image_const)

lemma rx_match_at_set:
  "g \<in> set (rx_match_at re s) \<longleftrightarrow>
     (\<exists>s1 \<in> set (rx_run (before re) s). \<exists>s2 \<in> set (rx_run (group1 re) s1).
        rx_run (after re) s2 \<noteq> [] \<and> g = take (length s1 - length s2) s1)"
proof -
  have "g \<in> set (rx_match_at re s) \<longleftrightarrow>
      (\<exists>s1 \<in> set (rx_run (before re) s).
         g \<in> set (concat (map (\<lambda>s2. map (\<lambda>s3. take (length s1 - length s2) s1) (rx_run (after re) s2))
           (rx_run (group1 re) s1))))"
    unfolding rx_match_at_def by simp
  then show ?thesis unfolding in_captures .
qed

lemma rx_match_at_Nil:
  "rx_match_at re s = [] \<longleftrightarrow>
     (\<forall>s1 \<in> set (rx_run (before re) s). \<forall>s2 \<in> set (rx_run (group1 re) s1). rx_run (after re) s2 = [])"
  unfolding rx_match_at_def by simp

lemma greedy_star_hd: "\<exists>rest. greedy_star p s = dropWhile p s # rest"
  by (induction s) auto

lemma in_greedy_star: "t \<in> set (greedy_star p s) \<longleftrightarrow> (\<exists>w. s = w @ t \<and> list_all p w)"
  by (simp add: greedy_star_set)

lemma dropWhile_all: "list_all p w \<Longrightarrow> dropWhile p (w @ s) = dropWhile p s"
  by (induction w) simp_all

lemma list_all_dropWhile: "list_all q u \<Longrightarrow> list_all q (dropWhile p u)"
  by (induction u) simp_all

text \<open>Leading white space before a path: taking all of it loses no match.\<close>

lemma shift_to_trimmed:
  assumes dot: "\<forall>v \<in> rx_lang Y. \<exists>t. v = CHR ''.'' # t"
    and s1: "s1 \<in> set (greedy_star js_space line)"
    and s2: "s2 \<in> set (rx_run (Seq (Star js_dot) Y) s1)"
  shows "s2 \<in> set (rx_run (Seq (Star js_dot) Y) (dropWhile js_space line))"
proof -
  from s1 obtain ws where ws: "line = ws @ s1" "list_all js_space ws"
    unfolding in_greedy_star by blast
  from s2 obtain w where w: "w \<in> rx_lang (Seq (Star js_dot) Y)" "s1 = w @ s2"
    unfolding rx_run_lang by blast
  from w(1) obtain u v where uv: "w = u @ v" "list_all js_dot u" "v \<in> rx_lang Y"
    by auto
  from dot uv(3) obtain t where t: "v = CHR ''.'' # t" by blast
  have nsp: "\<not> js_space (CHR ''.'')" by (simp add: js_space_def)
  have "dropWhile js_space line = dropWhile js_space (u @ CHR ''.'' # t @ s2)"
    unfolding ws(1) w(2) uv(1) t using ws(2) by (simp add: dropWhile_all)
  also have "\<dots> = dropWhile js_space u @ CHR ''.'' # t @ s2"
    using nsp by (rule dropWhile_append3)
  finally have eq: "dropWhile js_space line = (dropWhile js_space u @ v) @ s2"
    by (simp add: t)
  have "dropWhile js_space u @ v \<in> rx_lang (Seq (Star js_dot) Y)"
    using uv(2,3) list_all_dropWhile [of js_dot u js_space] by auto
  with eq show ?thesis unfolding rx_run_lang by blast
qed

lemma first_capture_trimmed:
  assumes b: "before re = Star js_space"
    and g1: "group1 re = Seq (Star js_dot) Y"
    and dot: "\<forall>v \<in> rx_lang Y. \<exists>t. v = CHR ''.'' # t"
    and m: "rx_match_at re line = g # gs"
  shows "\<exists>s2 \<in> set (rx_run (group1 re) (dropWhile js_space line)).
           rx_run (after re) s2 \<noteq> [] \<and>
           g = take (length (dropWhile js_space line) - length s2) (dropWhile js_space line)"
proof -
  let ?t = "dropWhile js_space line"
  let ?F = "\<lambda>s1. concat (map (\<lambda>s2. map (\<lambda>s3. take (length s1 - length s2) s1) (rx_run (after re) s2))
       (rx_run (group1 re) s1))"
  obtain rest where gs: "greedy_star js_space line = ?t # rest"
    using greedy_star_hd by blast
  have cat: "rx_match_at re line = ?F ?t @ concat (map ?F rest)"
    by (simp add: rx_match_at_def b gs)
  have "?F ?t \<noteq> []"
  proof
    assume e: "?F ?t = []"
    from m have "g \<in> set (rx_match_at re line)" by simp
    then obtain s1 s2 where s: "s1 \<in> set (greedy_star js_space line)"
      "s2 \<in> set (rx_run (group1 re) s1)" "rx_run (after re) s2 \<noteq> []"
      unfolding rx_match_at_set b by auto
    from shift_to_trimmed [OF dot s(1)] s(2) have "s2 \<in> set (rx_run (group1 re) ?t)"
      unfolding g1 by blast
    with s(3) have "take (length ?t - length s2) ?t \<in> set (?F ?t)"
      unfolding in_captures by blast
    with e show False by simp
  qed
  with m cat have "g \<in> set (?F ?t)"
    by (cases "?F ?t") auto
  then show ?thesis unfolding in_captures .
qed

lemma js_split_not_Nil: "js_split p s \<noteq> []"
  by (cases s) (auto split: list.splits)

lemma hd_js_split: "hd (js_split p s) = takeWhile (\<lambda>c. \<not> p c) s"
proof (induction s)
  case Nil
  show ?case by simp
next
  case (Cons c cs)
  obtain piece pieces where "js_split p cs = piece # pieces"
    using js_split_not_Nil [of p cs] by (cases "js_split p cs") auto
  with Cons show ?case by simp
qed

lemma errorFiles_re_parts:
  "before errorFiles_re = Star js_space"
  "group1 errorFiles_re = Seq (Star js_dot) (Lit ''.cs'')"
  "after errorFiles_re = location_error"
  "anchored errorFiles_re"
  by (simp_all add: errorFiles_re_def)

lemma buildErrors_re_parts:
  "before buildErrors_re = Star js_space"
  "group1 buildErrors_re = Seq (Star js_dot) (Seq (Lit ''.cs'') (Seq location_error (Star js_dot)))"
  "after buildErrors_re = Lit []"
  "anchored buildErrors_re"
  by (simp_all add: buildErrors_re_def)

lemma starts_with_dot:
  "\<forall>v \<in> rx_lang (Lit ''.cs''). \<exists>t. v = CHR ''.'' # t"
  "\<forall>v \<in> rx_lang (Seq (Lit ''.cs'') X). \<exists>t. v = CHR ''.'' # t"
  by auto

lemma in_group1_errorFiles:
  "w \<in> rx_lang (group1 errorFiles_re) \<longleftrightarrow> (\<exists>pre. w = pre @ ''.cs'' \<and> list_all js_dot pre)"
  unfolding errorFiles_re_parts in_lang_Star_Seq by auto

lemma in_group1_buildErrors:
  "w \<in> rx_lang (group1 buildErrors_re) \<longleftrightarrow>
     (\<exists>pre loc tail. w = pre @ ''.cs'' @ loc @ tail \<and> list_all js_dot pre \<and> location_shape loc \<and>
        list_all js_dot tail)"
proof
  assume "w \<in> rx_lang (group1 buildErrors_re)"
  then obtain pre v1 where 1: "w = pre @ v1" "list_all js_dot pre"
      "v1 \<in> rx_lang (Seq (Lit ''.cs'') (Seq location_error (Star js_dot)))"
    unfolding buildErrors_re_parts in_lang_Star_Seq by blast
  from 1(3) obtain v2 where 2: "v1 = ''.cs'' @ v2" "v2 \<in> rx_lang (Seq location_error (Star js_dot))"
    unfolding in_lang_Lit_Seq by blast
  from 2(2) obtain loc tail where 3: "v2 = loc @ tail" "loc \<in> rx_lang location_error" "list_all js_dot tail"
    unfolding in_lang_Seq by auto
  have "w = pre @ ''.cs'' @ loc @ tail" unfolding 1(1) 2(1) 3(1) ..
  with 1(2) 3(2,3) show "\<exists>pre loc tail. w = pre @ ''.cs'' @ loc @ tail \<and> list_all js_dot pre \<and>
      location_shape loc \<and> list_all js_dot tail"
    unfolding location_lang by blast
next
  assume "\<exists>pre loc tail. w = pre @ ''.cs'' @ loc @ tail \<and> list_all js_dot pre \<and> location_shape loc \<and>
        list_all js_dot tail"
  then obtain pre loc tail where w: "w = pre @ ''.cs'' @ loc @ tail" "list_all js_dot pre"
    "location_shape loc" "list_all js_dot tail" by blast
  have 3: "loc @ tail \<in> rx_lang (Seq location_error (Star js_dot))"
    unfolding in_lang_Seq using w(3,4) location_lang by auto
  have 2: "''.cs'' @ loc @ tail \<in> rx_lang (Seq (Lit ''.cs'') (Seq location_error (Star js_dot)))"
    unfolding in_lang_Lit_Seq using 3 by blast
  show "w \<in> rx_lang (group1 buildErrors_re)"
    unfolding buildErrors_re_parts w(1) in_lang_Star_Seq using 2 w(2) by blast
qed

lemma run_nonempty: "rx_run r s \<noteq> [] \<longleftrightarrow> (\<exists>w \<in> rx_lang r. \<exists>t. s = w @ t)"
proof -
  have "rx_run r s \<noteq> [] \<longleftrightarrow> (\<exists>t. t \<in> set (rx_run r s))"
    by (cases "rx_run r s") auto
  then show ?thesis unfolding rx_run_lang by blast
qed

lemma rx_match_at_nonempty_iff:
  "rx_match_at re s \<noteq> [] \<longleftrightarrow>
     (\<exists>u \<in> rx_lang (before re). \<exists>v \<in> rx_lang (group1 re). \<exists>w \<in> rx_lang (after re). \<exists>t.
        s = u @ v @ w @ t)"
proof -
  have "rx_match_at re s \<noteq> [] \<longleftrightarrow>
     (\<exists>s1 \<in> set (rx_run (before re) s). \<exists>s2 \<in> set (rx_run (group1 re) s1). rx_run (after re) s2 \<noteq> [])"
    unfolding rx_match_at_Nil by blast
  also have "\<dots> \<longleftrightarrow> (\<exists>u \<in> rx_lang (before re). \<exists>s1. s = u @ s1 \<and>
      (\<exists>v \<in> rx_lang (group1 re). \<exists>s2. s1 = v @ s2 \<and> (\<exists>w \<in> rx_lang (after re). \<exists>t. s2 = w @ t)))"
    unfolding rx_run_lang run_nonempty by blast
  also have "\<dots> \<longleftrightarrow> (\<exists>u \<in> rx_lang (before re). \<exists>v \<in> rx_lang (group1 re). \<exists>w \<in> rx_lang (after re). \<exists>t.
        s = u @ v @ w @ t)"
    by blast
  finally show ?thesis .
qed

lemma buildErrors_match_iff: "rx_match_at buildErrors_re line \<noteq> [] \<longleftrightarrow> error_line_shape line"
proof
  assume "rx_match_at buildErrors_re line \<noteq> []"
  then obtain u v w t where m: "u \<in> rx_lang (before buildErrors_re)" "v \<in> rx_lang (group1 buildErrors_re)"
    "line = u @ v @ w @ t"
    unfolding rx_match_at_nonempty_iff by blast
  from m(2) obtain pre loc tail where v: "v = pre @ ''.cs'' @ loc @ tail" "list_all js_dot pre"
    "location_shape loc"
    unfolding in_group1_buildErrors by blast
  from m(1) have u: "list_all js_space u" by (simp add: buildErrors_re_parts)
  have "line = u @ pre @ ''.cs'' @ loc @ (tail @ w @ t)"
    unfolding m(3) v(1) by simp
  with u v(2,3) show "error_line_shape line"
    unfolding error_line_shape_def by blast
next
  assume "error_line_shape line"
  then obtain ws pre loc rest where l: "line = ws @ pre @ ''.cs'' @ loc @ rest"
    "list_all js_space ws" "list_all js_dot pre" "location_shape loc"
    unfolding error_line_shape_def by blast
  have 1: "ws \<in> rx_lang (before buildErrors_re)" using l(2) by (simp add: buildErrors_re_parts)
  have "list_all js_dot []" by simp
  with l(3,4) have "\<exists>pre' loc' tail. pre @ ''.cs'' @ loc @ [] = pre' @ ''.cs'' @ loc' @ tail \<and>
      list_all js_dot pre' \<and> location_shape loc' \<and> list_all js_dot tail"
    by blast
  then have "pre @ ''.cs'' @ loc @ [] \<in> rx_lang (group1 buildErrors_re)"
    unfolding in_group1_buildErrors .
  then have 2: "pre @ ''.cs'' @ loc \<in> rx_lang (group1 buildErrors_re)" by simp
  have 3: "[] \<in> rx_lang (after buildErrors_re)" by (simp add: buildErrors_re_parts)
  have "line = ws @ (pre @ ''.cs'' @ loc) @ [] @ rest" unfolding l(1) by simp
  with 1 2 3 show "rx_match_at buildErrors_re line \<noteq> []"
    unfolding rx_match_at_nonempty_iff by blast
qed

lemma errorFiles_match_iff: "rx_match_at errorFiles_re line \<noteq> [] \<longleftrightarrow> error_line_shape line"
proof
  assume "rx_match_at errorFiles_re line \<noteq> []"
  then obtain u v w t where m: "u \<in> rx_lang (before errorFiles_re)" "v \<in> rx_lang (group1 errorFiles_re)"
    "w \<in> rx_lang (after errorFiles_re)" "line = u @ v @ w @ t"
    unfolding rx_match_at_nonempty_iff by blast
  from m(2) obtain pre where v: "v = pre @ ''.cs''" "list_all js_dot pre"
    unfolding in_group1_errorFiles by blast
  from m(1) have u: "list_all js_space u" by (simp add: errorFiles_re_parts)
  from m(3) have w: "location_shape w" by (simp add: errorFiles_re_parts location_lang)
  have "line = u @ pre @ ''.cs'' @ w @ t"
    unfolding m(4) v(1) by simp
  with u v(2) w show "error_line_shape line"
    unfolding error_line_shape_def by blast
next
  assume "error_line_shape line"
  then obtain ws pre loc rest where l: "line = ws @ pre @ ''.cs'' @ loc @ rest"
    "list_all js_space ws" "list_all js_dot pre" "location_shape loc"
    unfolding error_line_shape_def by blast
  have 1: "ws \<in> rx_lang (before errorFiles_re)" using l(2) by (simp add: errorFiles_re_parts)
  have 2: "pre @ ''.cs'' \<in> rx_lang (group1 errorFiles_re)"
    unfolding in_group1_errorFiles using l(3) by blast
  have 3: "loc \<in> rx_lang (after errorFiles_re)" using l(4) by (simp add: errorFiles_re_parts location_lang)
  have "line = ws @ (pre @ ''.cs'') @ loc @ rest" unfolding l(1) by simp
  with 1 2 3 show "rx_match_at errorFiles_re line \<noteq> []"
    unfolding rx_match_at_nonempty_iff by blast
qed

lemma location_shape_open: "location_shape loc \<Longrightarrow> \<exists>opn t. loc = opn # t \<and> is_open opn"
  unfolding location_shape_def by blast

lemma takeWhile_upto_open:
  "is_open opn \<Longrightarrow> takeWhile (\<lambda>c. \<not> is_open c) (u @ opn # t @ s) = takeWhile (\<lambda>c. \<not> is_open c) (u @ opn # t)"
  by (induction u) simp_all

text \<open>What \<^verbatim>\<open>getBuildErrors\<close> compares: the text up to the first opening bracket.\<close>

lemma line_is_error_of_iff:
  "line_is_error_of rs r line \<longleftrightarrow>
     error_line_shape line \<and> rs (takeWhile (\<lambda>c. \<not> is_open c) (dropWhile js_space line)) = r"
proof (cases "rx_match_at buildErrors_re line")
  case Nil
  then have 1: "\<not> line_is_error_of rs r line"
    by (simp add: line_is_error_of_def js_match_def buildErrors_re_parts)
  from Nil have "\<not> error_line_shape line"
    using buildErrors_match_iff by auto
  with 1 show ?thesis by simp
next
  case (Cons g gs)
  let ?t = "dropWhile js_space line"
  from first_capture_trimmed [OF buildErrors_re_parts(1,2) starts_with_dot(2) Cons]
  obtain s2 where s2: "s2 \<in> set (rx_run (group1 buildErrors_re) ?t)"
    and g: "g = take (length ?t - length s2) ?t" by blast
  from s2 obtain w where w: "w \<in> rx_lang (group1 buildErrors_re)" "?t = w @ s2"
    unfolding rx_run_lang by blast
  from g w(2) have gw: "g = w" by simp
  from w(1) obtain pre loc tail where p: "w = pre @ ''.cs'' @ loc @ tail" "location_shape loc"
    unfolding in_group1_buildErrors by blast
  from location_shape_open [OF p(2)] obtain opn t where l: "loc = opn # t" "is_open opn" by blast
  have "takeWhile (\<lambda>c. \<not> is_open c) ((pre @ ''.cs'') @ opn # (t @ tail) @ s2)
      = takeWhile (\<lambda>c. \<not> is_open c) ((pre @ ''.cs'') @ opn # (t @ tail))"
    using l(2) by (rule takeWhile_upto_open)
  then have "takeWhile (\<lambda>c. \<not> is_open c) ?t = takeWhile (\<lambda>c. \<not> is_open c) g"
    unfolding gw w(2) p(1) l(1) by simp
  then have 1: "line_is_error_of rs r line \<longleftrightarrow> rs (takeWhile (\<lambda>c. \<not> is_open c) ?t) = r"
    using Cons by (simp add: line_is_error_of_def js_match_def buildErrors_re_parts hd_js_split)
  from Cons have "error_line_shape line"
    using buildErrors_match_iff [of line] by simp
  with 1 show ?thesis by simp
qed

text \<open>What \<^verbatim>\<open>getBuildErrorFiles\<close> captures: a text that an opening bracket follows.\<close>

lemma errorFiles_capture:
  assumes "js_match errorFiles_re line = Some g"
  shows "\<exists>opn rest. dropWhile js_space line = g @ opn # rest \<and> is_open opn"
proof -
  let ?t = "dropWhile js_space line"
  from assms obtain gs where m: "rx_match_at errorFiles_re line = g # gs"
    by (auto simp: js_match_def errorFiles_re_parts split: list.splits)
  from first_capture_trimmed [OF errorFiles_re_parts(1,2) starts_with_dot(1) m]
  obtain s2 where s2: "s2 \<in> set (rx_run (group1 errorFiles_re) ?t)"
    and a: "rx_run (after errorFiles_re) s2 \<noteq> []"
    and g: "g = take (length ?t - length s2) ?t" by blast
  from s2 obtain w where w: "?t = w @ s2"
    unfolding rx_run_lang by blast
  from g w have gw: "g = w" by simp
  from a obtain loc rest where lr: "loc \<in> rx_lang location_error" "s2 = loc @ rest"
    unfolding run_nonempty errorFiles_re_parts by blast
  from lr(1) have "location_shape loc" by (simp add: location_lang)
  from location_shape_open [OF this] obtain opn t where "loc = opn # t" "is_open opn" by blast
  with lr(2) have "s2 = opn # t @ rest" "is_open opn" by simp_all
  with w gw show ?thesis by blast
qed

lemma errorFiles_None_iff: "js_match errorFiles_re line = None \<longleftrightarrow> \<not> error_line_shape line"
  using errorFiles_match_iff [of line]
  by (auto simp: js_match_def errorFiles_re_parts split: list.splits)

lemma takeWhile_whole:
  "list_all (\<lambda>c. \<not> is_open c) g \<Longrightarrow> is_open opn \<Longrightarrow> takeWhile (\<lambda>c. \<not> is_open c) (g @ opn # rest) = g"
  by (induction g) simp_all

lemma same_path_without_brackets:
  assumes m: "js_match errorFiles_re line = Some g"
    and nb: "list_all (\<lambda>c. \<not> is_open c) g"
  shows "line_is_error_of rs r line \<longleftrightarrow> rs g = r"
proof -
  from errorFiles_capture [OF m] obtain opn rest
    where t: "dropWhile js_space line = g @ opn # rest" "is_open opn" by blast
  from m have "error_line_shape line"
    using errorFiles_None_iff [of line] by auto
  then show ?thesis
    unfolding line_is_error_of_iff t(1) takeWhile_whole [OF nb t(2)] by simp
qed

lemma set_set_add: "set (set_add s x) = insert x (set s)"
  by (auto simp: set_add_def)

lemma set_errorFiles_fold:
  "set (foldl (errorFiles_step rs) acc lines)
     = set acc \<union> {rs g | line g. line \<in> set lines \<and> js_match errorFiles_re line = Some g}"
proof (induction lines arbitrary: acc)
  case Nil
  show ?case by simp
next
  case (Cons l ls)
  show ?case
  proof (cases "js_match errorFiles_re l")
    case None
    then have "errorFiles_step rs acc l = acc" by (simp add: errorFiles_step_def)
    with None Cons.IH [of acc] show ?thesis by auto
  next
    case (Some g)
    then have "errorFiles_step rs acc l = set_add acc (rs g)" by (simp add: errorFiles_step_def)
    with Some Cons.IH [of "set_add acc (rs g)"] show ?thesis
      by (auto simp: set_set_add)
  qed
qed

lemma in_parseErrorFiles:
  "f \<in> set (parseErrorFiles rs output) \<longleftrightarrow>
     (\<exists>line \<in> set (js_split is_newline output). \<exists>g. js_match errorFiles_re line = Some g \<and> rs g = f)"
  unfolding parseErrorFiles_def set_errorFiles_fold by auto

lemma parseBuildErrors_nonempty:
  "parseBuildErrors rs output f \<noteq> [] \<longleftrightarrow>
     (\<exists>line \<in> set (js_split is_newline output). line_is_error_of rs (rs f) line)"
  by (simp add: parseBuildErrors_def Let_def filter_empty_conv)

section \<open>The response extractor: proofs\<close>

lemma lazy_star_length: "t \<in> set (lazy_star p s) \<Longrightarrow> length t \<le> length s"
  by (induction s) (auto split: if_splits)

lemma fence_not_Nil [simp]: "fence \<noteq> []"
  by (simp add: fence_def)

lemma first_concat_map:
  "(case concat (map f xs) of [] \<Rightarrow> None | y # _ \<Rightarrow> Some y) =
   (case filter (\<lambda>x. f x \<noteq> []) xs of [] \<Rightarrow> None | x # _ \<Rightarrow> (case f x of [] \<Rightarrow> None | y # _ \<Rightarrow> Some y))"
  by (induction xs) (auto split: list.splits)

lemma concat_map_map: "concat (map (\<lambda>x. map g (F x)) xs) = map g (concat (map F xs))"
  by (induction xs) simp_all

lemma lazy_match_Cons:
  "concat (map (\<lambda>s2. map (\<lambda>s3. take (length (c # cs) - length s2) (c # cs)) (A s2))
        (lazy_star js_any (c # cs)))
   = map (\<lambda>s3. []) (A (c # cs)) @
     map (Cons c) (concat (map (\<lambda>s2. map (\<lambda>s3. take (length cs - length s2) cs) (A s2))
        (lazy_star js_any cs)))"
proof -
  have A1: "lazy_star js_any (c # cs) = (c # cs) # lazy_star js_any cs"
    by (simp add: js_any_def)
  have A2: "map (\<lambda>s3. take (length (c # cs) - length s2) (c # cs)) (A s2)
          = map (Cons c) (map (\<lambda>s3. take (length cs - length s2) cs) (A s2))"
    if "s2 \<in> set (lazy_star js_any cs)" for s2
    using lazy_star_length [OF that] by (simp add: Suc_diff_le)
  have A3: "map (\<lambda>s2. map (\<lambda>s3. take (length (c # cs) - length s2) (c # cs)) (A s2)) (lazy_star js_any cs)
      = map (\<lambda>s2. map (Cons c) (map (\<lambda>s3. take (length cs - length s2) cs) (A s2))) (lazy_star js_any cs)"
    by (rule map_cong [OF refl]) (rule A2)
  have A4: "map (\<lambda>s3. take (length (c # cs) - length (c # cs)) (c # cs)) (A (c # cs)) = map (\<lambda>s3. []) (A (c # cs))"
    by simp
  show ?thesis
    unfolding A1 list.map concat.simps A3 A4 concat_map_map ..
qed

lemma lazy_capture:
  "(case concat (map (\<lambda>s2. map (\<lambda>s3. take (length s - length s2) s) (rx_run (Lit fence) s2))
        (lazy_star js_any s)) of [] \<Rightarrow> None | g # _ \<Rightarrow> Some g) = upto_fence s"
proof (induction s)
  case Nil
  show ?case by simp
next
  case (Cons c cs)
  define L where "L = concat (map (\<lambda>s2. map (\<lambda>s3. take (length cs - length s2) cs) (rx_run (Lit fence) s2))
        (lazy_star js_any cs))"
  have IH: "(case L of [] \<Rightarrow> None | g # _ \<Rightarrow> Some g) = upto_fence cs"
    unfolding L_def by (rule Cons.IH)
  have "(case map (\<lambda>s3. []) (rx_run (Lit fence) (c # cs)) @ map (Cons c) L of [] \<Rightarrow> None | g # _ \<Rightarrow> Some g)
        = upto_fence (c # cs)"
    using IH [symmetric] by (cases L) auto
  then show ?case
    unfolding lazy_match_Cons L_def .
qed

lemma upto_fence_prefix: "upto_fence s = Some g \<Longrightarrow> prefix g s"
  by (induction s arbitrary: g) (auto split: if_splits)

lemma upto_fence_no_fence: "upto_fence s = Some g \<Longrightarrow> \<not> contains_fence g"
proof (induction s arbitrary: g)
  case Nil
  then show ?case by simp
next
  case (Cons c cs)
  show ?case
  proof (cases "prefix fence (c # cs)")
    case True
    with Cons.prems show ?thesis by simp
  next
    case False
    with Cons.prems obtain g' where g': "upto_fence cs = Some g'" "g = c # g'"
      by auto
    from g'(1) have "prefix (c # g') (c # cs)"
      by (simp add: upto_fence_prefix)
    with False have "\<not> prefix fence (c # g')"
      using prefix_order.trans by blast
    with Cons.IH [OF g'(1)] g'(2) show ?thesis by simp
  qed
qed

lemma contains_fence_prefix: "prefix u s \<Longrightarrow> contains_fence u \<Longrightarrow> contains_fence s"
proof (induction s arbitrary: u)
  case Nil then show ?case by simp
next
  case (Cons c cs)
  show ?case
  proof (cases u)
    case Nil with Cons.prems show ?thesis by simp
  next
    case (Cons d ds)
    with Cons.prems have dc: "d = c" and pds: "prefix ds cs" by simp_all
    show ?thesis
    proof (cases "prefix fence u")
      case True
      from True Cons.prems(1) have "prefix fence (c # cs)" by (rule prefix_order.trans)
      then show ?thesis by simp
    next
      case False
      with Cons.prems(2) Cons have "contains_fence ds" by simp
      with pds Cons.IH show ?thesis by simp
    qed
  qed
qed

lemma trimEnd_prefix: "prefix (trimEnd s) s"
proof -
  have "trimEnd s @ rev (takeWhile js_space (rev s)) = s"
    unfolding trimEnd_def by (simp only: rev_append [symmetric] takeWhile_dropWhile_id rev_rev_ident)
  then show ?thesis by (metis prefixI)
qed

lemma contains_fence_snoc_newline:
  "contains_fence (u @ [CHR 0x0A]) \<Longrightarrow> contains_fence u"
proof (induction u)
  case Nil then show ?case by (simp add: fence_def)
next
  case (Cons c cs)
  show ?case
  proof (cases "contains_fence (cs @ [CHR 0x0A])")
    case True with Cons.IH show ?thesis by simp
  next
    case False
    with Cons.prems have p: "prefix fence (c # cs @ [CHR 0x0A])" by simp
    have "prefix fence (c # cs)"
    proof (cases cs)
      case Nil with p show ?thesis by (simp add: fence_def)
    next
      case (Cons d ds)
      note c1 = this
      show ?thesis
      proof (cases ds)
        case Nil with p c1 show ?thesis by (simp add: fence_def)
      next
        case (Cons e es) with p c1 show ?thesis by (auto simp: fence_def)
      qed
    qed
    then show ?thesis by simp
  qed
qed

lemma js_space_newline: "js_space (CHR 0x0A)"
  by (simp add: js_space_def)

lemma trimEnd_ends: "ends_with_one_newline (trimEnd s @ [CHR 0x0A])"
proof (cases "dropWhile js_space (rev s)")
  case Nil
  then show ?thesis by (simp add: ends_with_one_newline_def trimEnd_def del: dropWhile_eq_Nil_conv)
next
  case (Cons x xs)
  then have "\<not> js_space x"
    using hd_dropWhile [of js_space "rev s"] by simp
  with js_space_newline have "x \<noteq> CHR 0x0A" by auto
  with Cons show ?thesis by (simp add: ends_with_one_newline_def trimEnd_def)
qed

lemma rx_search_first:
  "rx_search re s = Some g \<Longrightarrow> \<exists>t y. rx_match_at re t = g # y"
  by (induction s) (auto split: list.splits)

lemma fence_match_at:
  assumes a: "rx_match_at fence_re t = g # y"
  shows "\<not> contains_fence g"
proof -
  let ?f = "\<lambda>s1. concat (map (\<lambda>s2. map (\<lambda>s3. take (length s1 - length s2) s1) (rx_run (Lit fence) s2))
        (lazy_star js_any s1))"
  from a have "(case concat (map ?f (rx_run (before fence_re) t)) of [] \<Rightarrow> None | y # _ \<Rightarrow> Some y) = Some g"
    by (simp add: rx_match_at_def fence_re_def)
  then obtain s1 where "(case ?f s1 of [] \<Rightarrow> None | y # _ \<Rightarrow> Some y) = Some g"
    unfolding first_concat_map by (auto split: list.splits)
  then have "upto_fence s1 = Some g" by (simp only: lazy_capture)
  then show ?thesis by (rule upto_fence_no_fence)
qed

text \<open>
  Claim C4, as amended.  For every sequence of response parts, the string that
  \<^verbatim>\<open>extractCode\<close> returns ends with exactly one newline character, in both branches;
  and when a fenced block is found, the returned string contains no code-fence marker.
  (In the fallback branch the whole text is returned, trimmed, with any fence marker
  that it holds.)
\<close>

theorem extractCode_output:
  "ends_with_one_newline (extractCode parts) \<and>
   (js_match fence_re (js_join [CHR 0x0A] (textParts parts)) \<noteq> None \<longrightarrow>
      \<not> contains_fence (extractCode parts))"
proof -
  let ?text = "js_join [CHR 0x0A] (textParts parts)"
  have 1: "ends_with_one_newline (extractCode parts)"
    by (simp add: extractCode_def Let_def trimEnd_ends split: option.splits)
  have 2: "\<not> contains_fence (extractCode parts)" if "js_match fence_re ?text \<noteq> None"
  proof -
    from that obtain g where g: "js_match fence_re ?text = Some g" by auto
    then have "rx_search fence_re ?text = Some g"
      by (simp add: js_match_def fence_re_def)
    then obtain t y where "rx_match_at fence_re t = g # y"
      using rx_search_first by blast
    then have "\<not> contains_fence g" by (rule fence_match_at)
    then have "\<not> contains_fence (trimEnd g)"
      using contains_fence_prefix trimEnd_prefix by blast
    then have "\<not> contains_fence (trimEnd g @ [CHR 0x0A])"
      using contains_fence_snoc_newline by blast
    with g show ?thesis by (simp add: extractCode_def)
  qed
  from 1 2 show ?thesis by blast
qed

theorem extractCode_output_witness:
  "js_match fence_re (js_join [CHR 0x0A]
       (textParts [text_part ''```cs\<newline>class A {}\<newline>```''])) \<noteq> None \<and>
   ends_with_one_newline (extractCode [text_part ''```cs\<newline>class A {}\<newline>```'']) \<and>
   \<not> contains_fence (extractCode [text_part ''```cs\<newline>class A {}\<newline>```''])"
  using extractCode_output [of "[text_part ''```cs\<newline>class A {}\<newline>```'']"]
  by (simp add: text_part_def js_match_def fence_re_def rx_match_at_def fence_def
      is_newline_def js_space_def js_any_def)

text \<open>
  Claim C4 as stated fails in the fallback branch: a response that is only a fence
  marker has no fenced block, and the marker is returned.
\<close>

theorem extractCode_fallback_keeps_fence:
  "js_match fence_re (js_join [CHR 0x0A] (textParts [text_part ''```''])) = None \<and>
   extractCode [text_part ''```''] = ''```\<newline>'' \<and>
   contains_fence (extractCode [text_part ''```''])"
  by (simp add: extractCode_def text_part_def js_match_def fence_re_def rx_match_at_def
      fence_def is_newline_def js_space_def js_any_def trimEnd_def)


lemma prefix_append_other:
  "prefix l (q @ c # s) \<Longrightarrow> c \<notin> set l \<Longrightarrow> prefix l q"
proof (induction l arbitrary: q)
  case Nil then show ?case by simp
next
  case (Cons a l)
  show ?case
  proof (cases q)
    case Nil
    with Cons.prems show ?thesis by simp
  next
    case (Cons b q')
    with Cons.prems have "a = b" and "prefix l (q' @ c # s)" and "c \<notin> set l" by simp_all
    with Cons.IH [of q'] Cons show ?thesis by simp
  qed
qed


lemma fence_prefix_before_newline:
  "prefix fence (q @ CHR 0x0A # s) \<Longrightarrow> prefix fence q"
  using prefix_append_other [of fence q "CHR 0x0A" s] by (simp add: fence_def)

lemma fence_match_needs_fence: "\<not> prefix fence s \<Longrightarrow> rx_match_at fence_re s = []"
  by (simp add: rx_match_at_def fence_re_def)

lemma rx_search_skip:
  "\<not> contains_fence p \<Longrightarrow> rx_search fence_re (p @ CHR 0x0A # s) = rx_search fence_re s"
proof (induction p)
  case Nil
  have "\<not> prefix fence (CHR 0x0A # s)" by (simp add: fence_def)
  then show ?case by (simp add: fence_match_needs_fence)
next
  case (Cons c p)
  from Cons.prems have "\<not> prefix fence (c # p)" by simp
  then have "\<not> prefix fence ((c # p) @ CHR 0x0A # s)"
    using fence_prefix_before_newline [of "c # p" s] by blast
  then have "rx_match_at fence_re (c # p @ CHR 0x0A # s) = []"
    by (simp add: fence_match_needs_fence)
  with Cons show ?case by simp
qed

lemma rx_search_middle:
  "rx_search fence_re (''```csharp\<newline>X\<newline>```'' @ r) = Some ''X\<newline>''"
  by (simp add: rx_match_at_def fence_re_def fence_def is_newline_def js_space_def js_any_def)

lemma js_match_fenced_between:
  assumes "\<not> contains_fence preamble"
  shows "js_match fence_re (js_join [CHR 0x0A]
           (textParts [text_part preamble, text_part ''```csharp\<newline>X\<newline>```'', text_part trailer]))
         = Some ''X\<newline>''"
proof -
  have mid: "rx_search fence_re (''```csharp\<newline>X\<newline>```'' @ r) = Some ''X\<newline>''" for r
    by (rule rx_search_middle)
  have pre: "rx_search fence_re (preamble @ CHR 0x0A # ''```csharp\<newline>X\<newline>```'' @ r) = Some ''X\<newline>''" for r
    unfolding rx_search_skip [OF assms] by (rule mid)
  have unanch: "js_match fence_re t = rx_search fence_re t" for t
    by (simp add: js_match_def fence_re_def)
  let ?mid = "''```csharp\<newline>X\<newline>```''"
  let ?parts = "[text_part preamble, text_part ?mid, text_part trailer]"
  have tx: "\<exists>r. js_join [CHR 0x0A] (textParts ?parts) = ?mid @ r \<or>
                js_join [CHR 0x0A] (textParts ?parts) = preamble @ CHR 0x0A # ?mid @ r"
  proof (cases "preamble = []")
    case True
    then have "js_join [CHR 0x0A] (textParts ?parts) = ?mid @ (if trailer = [] then [] else CHR 0x0A # trailer)"
      by (simp add: text_part_def)
    then show ?thesis by blast
  next
    case False
    then have "js_join [CHR 0x0A] (textParts ?parts) = preamble @ CHR 0x0A # ?mid @ (if trailer = [] then [] else CHR 0x0A # trailer)"
      by (simp add: text_part_def)
    then show ?thesis by blast
  qed
  then obtain r where "js_join [CHR 0x0A] (textParts ?parts) = ?mid @ r \<or>
                js_join [CHR 0x0A] (textParts ?parts) = preamble @ CHR 0x0A # ?mid @ r" ..
  then show ?thesis
  proof
    assume e: "js_join [CHR 0x0A] (textParts ?parts) = ?mid @ r"
    show ?thesis unfolding unanch e by (rule mid)
  next
    assume e: "js_join [CHR 0x0A] (textParts ?parts) = preamble @ CHR 0x0A # ?mid @ r"
    show ?thesis unfolding unanch e by (rule pre)
  qed
qed

text \<open>
  Claim C7, as amended.  For every preamble that holds no code-fence marker and every
  trailer, \<^verbatim>\<open>extractCode\<close> applied to the parts preamble, \<^verbatim>\<open>```csharp\nX\n```\<close>, trailer
  returns exactly \<^verbatim>\<open>X\n\<close>.
\<close>

theorem extractCode_fenced_between:
  assumes "\<not> contains_fence preamble"
  shows "extractCode [text_part preamble, text_part ''```csharp\<newline>X\<newline>```'', text_part trailer]
         = ''X\<newline>''"
  unfolding extractCode_def Let_def js_match_fenced_between [OF assms]
  by (simp add: trimEnd_def js_space_def)

theorem extractCode_fenced_between_witness:
  "\<not> contains_fence ''Here is the file:'' \<and>
   extractCode [text_part ''Here is the file:'', text_part ''```csharp\<newline>X\<newline>```'',
     text_part ''Done.''] = ''X\<newline>''"
  using extractCode_fenced_between [of "''Here is the file:''" "''Done.''"]
  by (simp add: fence_def)

text \<open>
  Claim C7 as stated fails when the preamble holds a fence marker: the search takes the
  leftmost fenced block, which then starts in the preamble.
\<close>

theorem extractCode_fence_in_preamble:
  "extractCode [text_part ''```'', text_part ''```csharp\<newline>X\<newline>```'', text_part ''trailer'']
     = ''\<newline>'' \<and>
   extractCode [text_part ''```'', text_part ''```csharp\<newline>X\<newline>```'', text_part ''trailer'']
     \<noteq> ''X\<newline>''"
  by (simp add: extractCode_def text_part_def js_match_def fence_re_def rx_match_at_def
      fence_def is_newline_def js_space_def js_any_def trimEnd_def)

lemma greedy_star_self: "s \<in> set (greedy_star p s)"
  by (cases s) simp_all

lemma lazy_star_self: "s \<in> set (lazy_star p s)"
  by (cases s) simp_all

lemma lazy_star_suffix: "s \<in> set (lazy_star js_any (u @ s))"
  by (induction u) (simp_all add: lazy_star_self js_any_def)

lemma rx_match_at_nonempty:
  "s1 \<in> set (rx_run (before re) s) \<Longrightarrow> s2 \<in> set (rx_run (group1 re) s1) \<Longrightarrow>
   rx_run (after re) s2 \<noteq> [] \<Longrightarrow> rx_match_at re s \<noteq> []"
  unfolding rx_match_at_def by (simp, blast)

lemma before_csharp:
  "rx_run (before fence_re) (fence @ ''csharp'' @ CHR 0x0A # y) = rx_run fence_header (CHR 0x0A # y)"
  by (simp add: fence_re_def fence_def fence_header_def js_space_def is_newline_def)

lemma before_cs:
  "rx_run (before fence_re) (fence @ ''cs'' @ CHR 0x0A # y) = rx_run fence_header (CHR 0x0A # y)"
  by (simp add: fence_re_def fence_def fence_header_def js_space_def is_newline_def)

lemma before_untagged:
  "rx_run (before fence_re) (fence @ CHR 0x0A # y) = rx_run fence_header (CHR 0x0A # y)"
  by (simp add: fence_re_def fence_def fence_header_def js_space_def is_newline_def)

lemma header_skips_newline: "y \<in> set (rx_run fence_header (CHR 0x0A # y))"
  by (simp add: fence_header_def js_space_def is_newline_def greedy_star_self)

lemma rx_match_at_cong:
  "rx_run (before re) s = rx_run (before re) t \<Longrightarrow> rx_match_at re s = rx_match_at re t"
  by (simp add: rx_match_at_def)

lemma untagged_match_nonempty:
  "rx_match_at fence_re (fence @ CHR 0x0A # x @ fence @ r) \<noteq> []"
proof (rule rx_match_at_nonempty)
  show "x @ fence @ r \<in> set (rx_run (before fence_re) (fence @ CHR 0x0A # x @ fence @ r))"
    unfolding before_untagged by (rule header_skips_newline)
  show "fence @ r \<in> set (rx_run (group1 fence_re) (x @ fence @ r))"
    by (simp add: fence_re_def lazy_star_suffix)
  show "rx_run (after fence_re) (fence @ r) \<noteq> []"
    by (simp add: fence_re_def)
qed

lemma rx_search_found:
  "rx_match_at re s = g # gs \<Longrightarrow> rx_search re s = Some g"
  by (cases s) simp_all

lemma tagged_search:
  fixes x r :: string
  defines "u \<equiv> fence @ CHR 0x0A # x @ fence @ r"
  shows "rx_search fence_re (fence @ ''csharp'' @ CHR 0x0A # x @ fence @ r) = rx_search fence_re u"
    and "rx_search fence_re (fence @ ''cs'' @ CHR 0x0A # x @ fence @ r) = rx_search fence_re u"
proof -
  obtain g gs where m: "rx_match_at fence_re u = g # gs"
    using untagged_match_nonempty [of x r] unfolding u_def by (cases "rx_match_at fence_re (fence @ CHR 0x0A # x @ fence @ r)") auto
  have "rx_match_at fence_re (fence @ ''csharp'' @ CHR 0x0A # x @ fence @ r) = rx_match_at fence_re u"
    unfolding u_def by (rule rx_match_at_cong) (simp only: before_csharp before_untagged)
  with m show "rx_search fence_re (fence @ ''csharp'' @ CHR 0x0A # x @ fence @ r) = rx_search fence_re u"
    by (simp only: rx_search_found)
  have "rx_match_at fence_re (fence @ ''cs'' @ CHR 0x0A # x @ fence @ r) = rx_match_at fence_re u"
    unfolding u_def by (rule rx_match_at_cong) (simp only: before_cs before_untagged)
  with m show "rx_search fence_re (fence @ ''cs'' @ CHR 0x0A # x @ fence @ r) = rx_search fence_re u"
    by (simp only: rx_search_found)
qed

lemma extractCode_single:
  "t \<noteq> [] \<Longrightarrow> extractCode [text_part t] =
     (case rx_search fence_re t of Some m \<Rightarrow> trimEnd m @ [CHR 0x0A] | None \<Rightarrow> trimEnd t @ [CHR 0x0A])"
  by (simp add: extractCode_def text_part_def js_match_def fence_re_def)

lemma header_exact:
  "\<not> js_space c \<Longrightarrow> rx_run fence_header (CHR 0x0A # c # cs) = [c # cs]"
proof -
  assume a: "\<not> js_space c"
  have sp: "js_space (CHR 0x0A)" by (simp add: js_space_def)
  with a have "\<not> is_newline c" by (auto simp: is_newline_def)
  with a sp show ?thesis by (simp add: fence_header_def is_newline_def)
qed

lemma header_rejects:
  "\<not> js_space c \<Longrightarrow> rx_run fence_header (c # cs) = []"
proof -
  assume a: "\<not> js_space c"
  have sp: "js_space (CHR 0x0A)" by (simp add: js_space_def)
  with a have "\<not> is_newline c" by (auto simp: is_newline_def)
  with a show ?thesis by (simp add: fence_header_def)
qed

lemma fence_re_parts:
  "group1 fence_re = LazyStar js_any" "after fence_re = Lit fence"
  "before fence_re = Seq (Lit fence) (Seq (Opt (Alt (Lit ''csharp'') (Lit ''cs''))) fence_header)"
  by (simp_all add: fence_re_def fence_header_def)

lemma untagged_interior:
  assumes h1: "upto_fence (x @ fence @ r) = Some x"
    and h2: "case x of [] \<Rightarrow> True | c # _ \<Rightarrow> \<not> js_space c"
  shows "rx_search fence_re (fence @ CHR 0x0A # x @ fence @ r) = Some x"
proof -
  obtain c cs where z: "x @ fence @ r = c # cs" and c: "\<not> js_space c"
  proof (cases x)
    case Nil
    have "\<not> js_space (CHR 0x60)" by (simp add: js_space_def)
    with Nil that [of "CHR 0x60" "CHR 0x60 # CHR 0x60 # r"] show ?thesis by (simp add: fence_def)
  next
    case (Cons d ds)
    with h2 that [of d "ds @ fence @ r"] show ?thesis by simp
  qed
  have b: "rx_run (before fence_re) (fence @ CHR 0x0A # x @ fence @ r) = [x @ fence @ r]"
    unfolding before_untagged z by (rule header_exact [OF c])
  have "(case rx_match_at fence_re (fence @ CHR 0x0A # x @ fence @ r) of [] \<Rightarrow> None | g # _ \<Rightarrow> Some g)
        = upto_fence (x @ fence @ r)"
    unfolding rx_match_at_def b fence_re_parts(1,2) rx_run.simps(8)
    by (simp only: list.map concat.simps append_Nil2 lazy_capture)
  with h1 obtain gs where "rx_match_at fence_re (fence @ CHR 0x0A # x @ fence @ r) = x # gs"
    by (auto split: list.splits)
  then show ?thesis by (rule rx_search_found)
qed

lemma lit_then_header:
  assumes "l \<noteq> t" "CHR 0x0A \<notin> set l" "\<forall>c\<in>set t. \<not> js_space c"
  shows "concat (map (rx_run fence_header) (rx_run (Lit l) (t @ CHR 0x0A # y))) = []"
proof (cases "prefix l (t @ CHR 0x0A # y)")
  case False
  then show ?thesis by simp
next
  case True
  from True assms(2) have "prefix l t" by (rule prefix_append_other)
  then obtain t' where t: "t = l @ t'" by (auto simp: prefix_def)
  with assms(1) obtain d ds where t': "t' = d # ds" by (cases t') auto
  with t assms(3) have "\<not> js_space d" by simp
  then have "rx_run fence_header (d # ds @ CHR 0x0A # y) = []" by (rule header_rejects)
  with True t t' show ?thesis by simp
qed

lemma other_tag_rejected:
  assumes "t \<noteq> []" "\<forall>c\<in>set t. \<not> js_space c" "t \<noteq> ''cs''" "t \<noteq> ''csharp''"
  shows "rx_match_at fence_re (fence @ t @ CHR 0x0A # y) = []"
proof -
  from assms(1) obtain d ds where t: "t = d # ds" by (cases t) auto
  with assms(2) have "\<not> js_space d" by simp
  then have 1: "rx_run fence_header (d # ds @ CHR 0x0A # y) = []" by (rule header_rejects)
  have 2: "concat (map (rx_run fence_header) (rx_run (Lit ''csharp'') (t @ CHR 0x0A # y))) = []"
    using assms by (intro lit_then_header) auto
  have 3: "concat (map (rx_run fence_header) (rx_run (Lit ''cs'') (t @ CHR 0x0A # y))) = []"
    using assms by (intro lit_then_header) auto
  have "rx_run (before fence_re) (fence @ t @ CHR 0x0A # y) = []"
    unfolding fence_re_parts(3) rx_run.simps(3,4,5)
    using 1 2 3 t by simp
  then show ?thesis by (simp add: rx_match_at_def)
qed

text \<open>
  Claim C8, as amended.  The opening fence's language tag is matched case-sensitively:
  a block tagged \<^verbatim>\<open>csharp\<close> or \<^verbatim>\<open>cs\<close> (lower case) is extracted exactly as the untagged
  block is; when the block's interior \<open>x\<close> does not start with white space and the
  closing fence is the first fence marker after it, the result is the interior with its
  trailing white space trimmed and one newline appended; and a fence followed by any
  other tag (a non-empty word without white space that is not one of the two lower-case
  spellings, such as \<^verbatim>\<open>CSharp\<close> or \<^verbatim>\<open>CS\<close>) does not open a block.
\<close>

theorem fence_tag_spellings:
  "extractCode [text_part (fence @ ''csharp'' @ CHR 0x0A # x @ fence @ r)]
     = extractCode [text_part (fence @ CHR 0x0A # x @ fence @ r)] \<and>
   extractCode [text_part (fence @ ''cs'' @ CHR 0x0A # x @ fence @ r)]
     = extractCode [text_part (fence @ CHR 0x0A # x @ fence @ r)] \<and>
   (upto_fence (x @ fence @ r) = Some x \<longrightarrow> (case x of [] \<Rightarrow> True | c # _ \<Rightarrow> \<not> js_space c) \<longrightarrow>
      extractCode [text_part (fence @ CHR 0x0A # x @ fence @ r)] = trimEnd x @ [CHR 0x0A]) \<and>
   (t \<noteq> [] \<longrightarrow> (\<forall>c\<in>set t. \<not> js_space c) \<longrightarrow> t \<noteq> ''cs'' \<longrightarrow> t \<noteq> ''csharp'' \<longrightarrow>
      rx_match_at fence_re (fence @ t @ CHR 0x0A # y) = [])"
proof -
  let ?u = "fence @ CHR 0x0A # x @ fence @ r"
  obtain g where g: "rx_search fence_re ?u = Some g"
    using untagged_match_nonempty [of x r] rx_search_found [of fence_re ?u]
    by (cases "rx_match_at fence_re ?u") auto
  have ne: "fence @ w \<noteq> []" for w by (simp add: fence_def)
  have 1: "extractCode [text_part (fence @ ''csharp'' @ CHR 0x0A # x @ fence @ r)] = extractCode [text_part ?u]"
    unfolding extractCode_single [OF ne] tagged_search g by simp
  have 2: "extractCode [text_part (fence @ ''cs'' @ CHR 0x0A # x @ fence @ r)] = extractCode [text_part ?u]"
    unfolding extractCode_single [OF ne] tagged_search g by simp
  have 3: "extractCode [text_part ?u] = trimEnd x @ [CHR 0x0A]"
    if "upto_fence (x @ fence @ r) = Some x" "case x of [] \<Rightarrow> True | c # _ \<Rightarrow> \<not> js_space c"
    unfolding extractCode_single [OF ne] untagged_interior [OF that] by simp
  have 4: "rx_match_at fence_re (fence @ t @ CHR 0x0A # y) = []"
    if "t \<noteq> []" "\<forall>c\<in>set t. \<not> js_space c" "t \<noteq> ''cs''" "t \<noteq> ''csharp''"
    using that by (rule other_tag_rejected)
  from 1 2 3 4 show ?thesis by blast
qed

theorem fence_tag_spellings_witness:
  "upto_fence (''X\<newline>'' @ fence @ []) = Some ''X\<newline>'' \<and>
   \<not> js_space (CHR ''X'') \<and> \<not> js_space (CHR ''C'') \<and> \<not> js_space (CHR ''S'') \<and>
   extractCode [text_part (fence @ ''csharp'' @ CHR 0x0A # ''X\<newline>'' @ fence @ [])] = ''X\<newline>'' \<and>
   extractCode [text_part (fence @ ''cs'' @ CHR 0x0A # ''X\<newline>'' @ fence @ [])] = ''X\<newline>'' \<and>
   extractCode [text_part (fence @ CHR 0x0A # ''X\<newline>'' @ fence @ [])] = ''X\<newline>'' \<and>
   rx_match_at fence_re (fence @ ''CS'' @ CHR 0x0A # ''X\<newline>```'') = []"
  using fence_tag_spellings [of "''X\<newline>''" "[]" "''CS''" "''X\<newline>```''"]
  by (simp add: fence_def js_space_def trimEnd_def)

text \<open>
  Claim C8 as stated fails: the expression has no \<^verbatim>\<open>i\<close> flag, so a block tagged \<^verbatim>\<open>CS\<close> is
  not found, and the fallback returns the whole text with its fences.
\<close>

theorem extractCode_uppercase_tag:
  "extractCode [text_part ''```CS\<newline>X\<newline>```''] = ''```CS\<newline>X\<newline>```\<newline>'' \<and>
   extractCode [text_part ''```cs\<newline>X\<newline>```''] = ''X\<newline>''"
  by (simp add: extractCode_def text_part_def js_match_def fence_re_def rx_match_at_def
      fence_def is_newline_def js_space_def js_any_def trimEnd_def)

section \<open>The service client: proofs\<close>

lemma actions_perform [simp]: "actions (perform as w) = actions w @ as"
  by (simp add: perform_def)

lemma relays_perform [simp]: "relays (perform as w) = relays w"
  by (simp add: perform_def)

lemma perform_perform [simp]: "perform bs (perform as w) = perform (as @ bs) w"
  by (simp add: perform_def)

lemma perform_Nil [simp]: "perform [] w = w"
  by (simp add: perform_def)

lemma relay_step_foreign: "foreign sid e \<Longrightarrow> relay_step sid e = Skip"
  by (induction sid e rule: relay_step.induct) (auto simp: foreign_def)

lemma relay_filter: "relay sid (filter (\<lambda>e. \<not> foreign sid e) evs) = relay sid evs"
  by (induction evs) (auto simp: relay_step_foreign split: step.splits)

lemma relay_foreign: "relay sid (filter (foreign sid) evs) = ([], None)"
  by (induction evs) (simp_all add: relay_step_foreign)

lemma relay_step_Write:
  "relay_step sid e = Write d \<Longrightarrow>
   \<exists>p. e = Event ''message.part.delta'' (Some p) \<and> sessionID p = Some sid \<and> delta p = Some d"
  by (induction sid e rule: relay_step.induct) (auto split: if_splits option.splits)

lemma relay_source:
  "d \<in> set (fst (relay sid evs)) \<Longrightarrow>
   \<exists>p. Event ''message.part.delta'' (Some p) \<in> set evs \<and> sessionID p = Some sid \<and> delta p = Some d"
proof (induction evs)
  case Nil
  then show ?case by simp
next
  case (Cons e es)
  show ?case
  proof (cases "relay_step sid e")
    case Skip
    with Cons show ?thesis by auto
  next
    case (Write d')
    from relay_step_Write [OF this] Write Cons show ?thesis
      by (auto split: prod.splits)
  next
    case (Raise x)
    with Cons show ?thesis by simp
  qed
qed

text \<open>What the quiet actions leave alone.\<close>

lemma quiet_filters:
  "list_all quiet as \<Longrightarrow>
   filter is_exec as = [] \<and> filter is_prompt as = [] \<and> filter is_followUp as = [] \<and>
   concat (map processed as) = [] \<and> filter (is_write_to q) as = [] \<and>
   concat (map report_of as) = []"
proof (induction as)
  case Nil
  show ?case by simp
next
  case (Cons a as)
  then show ?case by (cases a) simp_all
qed

lemma quiet_stdout: "list_all quiet (map StdoutWrite ws)"
  by (induction ws) simp_all

lemma run_relays_trace:
  "run_relays rs tr = (c, rs', tr') \<Longrightarrow> \<exists>as. tr' = tr @ as \<and> list_all quiet as"
proof (induction rs arbitrary: tr c rs' tr')
  case Nil
  then show ?case by simp
next
  case (Cons r rs)
  obtain ws st where b: "relay_batch r = (ws, st)" by force
  define tr1 where "tr1 = tr @ map StdoutWrite ws"
  have q1: "list_all quiet (map StdoutWrite ws)" by (rule quiet_stdout)
  show ?case
  proof (cases st)
    case (Running r')
    obtain c2 rs2 tr2 where rr: "run_relays rs tr1 = (c2, rs2, tr2)" by (cases "run_relays rs tr1") auto
    from Cons.IH [OF rr] obtain as where as: "tr2 = tr1 @ as" "list_all quiet as" by blast
    from Cons.prems b Running rr have "tr' = tr2" by (simp add: tr1_def)
    with as q1 have "tr' = tr @ (map StdoutWrite ws @ as) \<and> list_all quiet (map StdoutWrite ws @ as)"
      by (simp add: tr1_def)
    then show ?thesis by blast
  next
    case Resolved
    with Cons.prems b have rr: "run_relays rs tr1 = (c, rs', tr')" by (simp add: tr1_def)
    from Cons.IH [OF rr] obtain as where as: "tr' = tr1 @ as" "list_all quiet as" by blast
    with q1 have "tr' = tr @ (map StdoutWrite ws @ as) \<and> list_all quiet (map StdoutWrite ws @ as)"
      by (simp add: tr1_def)
    then show ?thesis by blast
  next
    case (Rejected x)
    show ?thesis
    proof (cases "handled r")
      case True
      with Rejected Cons.prems b have rr: "run_relays rs tr1 = (c, rs', tr')" by (simp add: tr1_def)
      from Cons.IH [OF rr] obtain as where as: "tr' = tr1 @ as" "list_all quiet as" by blast
      with q1 have "tr' = tr @ (map StdoutWrite ws @ as) \<and> list_all quiet (map StdoutWrite ws @ as)"
        by (simp add: tr1_def)
      then show ?thesis by blast
    next
      case False
      with Rejected Cons.prems b have "tr' = tr @ (map StdoutWrite ws @ [UnhandledRejection x])"
        by simp
      moreover have "list_all quiet (map StdoutWrite ws @ [UnhandledRejection x])"
        using q1 by simp
      ultimately show ?thesis by blast
    qed
  qed
qed

lemma quietly_iff: "quietly w w' \<longleftrightarrow> (\<exists>as. actions w' = actions w @ as \<and> list_all quiet as)"
  by (auto simp: quietly_def prefix_def)

lemma quietly_refl [simp]: "quietly w w"
  by (simp add: quietly_iff)

lemma quietly_trans: "quietly w w1 \<Longrightarrow> quietly w1 w2 \<Longrightarrow> quietly w w2"
  by (auto simp: quietly_iff)

lemma quietly_perform: "list_all quiet as \<Longrightarrow> quietly w (perform as w)"
  by (simp add: quietly_iff)

lemma quietly_relays [simp]: "quietly w (w' \<lparr> relays := rs \<rparr>) = quietly w w'"
  by (simp add: quietly_def)

lemma await_io_trace:
  "await_io w = (c, w') \<Longrightarrow> quietly w w'"
proof -
  assume a: "await_io w = (c, w')"
  obtain c2 rs tr where rr: "run_relays (relays w) (actions w) = (c2, rs, tr)"
    by (cases "run_relays (relays w) (actions w)") auto
  from run_relays_trace [OF rr] a rr show ?thesis
    by (auto simp: await_io_def quietly_iff)
qed

lemma quietly_observations:
  assumes "quietly w w'"
  shows "builds w' = builds w" and "prompts w' = prompts w" and "followUps w' = followUps w"
    and "visited w' = visited w" and "writes_to q w' = writes_to q w" and "reported w' = reported w"
    and "prefix (actions w) (actions w')"
proof -
  from assms obtain as where as: "actions w' = actions w @ as" "list_all quiet as"
    by (auto simp: quietly_iff)
  note f = quiet_filters [OF as(2), of q]
  from as f show "builds w' = builds w" by (simp add: builds_def)
  from as f show "prompts w' = prompts w" by (simp add: prompts_def)
  from as f show "followUps w' = followUps w" by (simp add: followUps_def)
  from as f show "visited w' = visited w" by (simp add: visited_def)
  from as f show "writes_to q w' = writes_to q w" by (simp add: writes_to_def)
  from as f show "reported w' = reported w" by (simp add: reported_def)
  from as show "prefix (actions w) (actions w')" by simp
qed


lemma relay_batch_handled:
  "relay_batch (r \<lparr> handled := h \<rparr>) = (ws, st) \<Longrightarrow> fst (relay_batch r) = ws"
  by (auto simp: relay_batch_def split: list.splits prod.splits option.splits stream_status.splits)

lemma race_trace: "race sd w = (r, w') \<Longrightarrow> quietly w w'"
proof (cases sd)
  case None
  assume "race sd w = (r, w')"
  with None show ?thesis by (simp add: race_def)
next
  case (Some t)
  assume a: "race sd w = (r, w')"
  obtain c w1 where aw: "await_io w = (c, w1)" by force
  note q1 = await_io_trace [OF aw]
  show ?thesis
  proof (cases c)
    case (Some x)
    with a aw \<open>sd = Some t\<close> q1 show ?thesis by (simp add: race_def)
  next
    case None
    obtain ws st where b: "relay_batch (t \<lparr> handled := True \<rparr>) = (ws, st)" by force
    have "quietly w1 (perform (map StdoutWrite ws) w1)"
      by (rule quietly_perform) (rule quiet_stdout)
    with q1 have q2: "quietly w (perform (map StdoutWrite ws) w1)" by (rule quietly_trans)
    from a aw None \<open>sd = Some t\<close> b q2 show ?thesis
      by (cases st) (auto simp: race_def Let_def)
  qed
qed

lemma after_prompt_trace: "after_prompt answer sd w = (r, w') \<Longrightarrow> quietly w w'"
proof (cases answer)
  case (Inl e)
  assume "after_prompt answer sd w = (r, w')"
  with Inl show ?thesis by (cases sd) (auto simp: after_prompt_def)
next
  case (Inr data)
  assume a: "after_prompt answer sd w = (r, w')"
  obtain r1 w1 where rc: "race sd w = (r1, w1)" by force
  note q1 = race_trace [OF rc]
  have "quietly w1 (perform [StdoutWrite [CHR 0x0A]] w1)" by (rule quietly_perform) simp
  with q1 have q2: "quietly w (perform [StdoutWrite [CHR 0x0A]] w1)" by (rule quietly_trans)
  from a Inr rc q1 q2 show ?thesis
    by (cases r1; cases data) (auto simp: after_prompt_def Let_def)
qed

lemma prompt_with_relay_trace:
  assumes "prompt_with_relay cl sid parts w = (r, w')"
  shows "quietly w w' \<or> (\<exists>w1. quietly w w1 \<and> quietly (perform [Prompt sid parts] w1) w')"
proof -
  obtain c1 w1 where a1: "await_io (perform [Subscribe] w) = (c1, w1)" by force
  have "quietly w (perform [Subscribe] w)" by (rule quietly_perform) simp
  with await_io_trace [OF a1] have q1: "quietly w w1" by (rule quietly_trans [rotated])
  show ?thesis
  proof (cases c1)
    case (Some x)
    with assms a1 q1 show ?thesis by (simp add: prompt_with_relay_def)
  next
    case None
    show ?thesis
    proof (cases "event_subscribe cl (actions w)")
      case (Inl e)
      with assms a1 None q1 show ?thesis by (simp add: prompt_with_relay_def)
    next
      case (Inr stream)
      let ?p = "perform [Prompt sid parts] w1"
      obtain c2 w2 where a2: "await_io ?p = (c2, w2)" by force
      note q2 = await_io_trace [OF a2]
      show ?thesis
      proof (cases c2)
        case (Some x)
        with assms a1 a2 None Inr have "w' = w2" by (simp add: prompt_with_relay_def)
        with q1 q2 show ?thesis by blast
      next
        case None2: None
        obtain ws st where b: "relay_batch \<lparr> rsession = sid, handled = False, feed = stream \<rparr> = (ws, st)"
          by force
        define w3 where "w3 = perform (map StdoutWrite ws) w2"
        have "quietly w2 w3" unfolding w3_def by (rule quietly_perform) (rule quiet_stdout)
        with q2 have q3: "quietly ?p w3" by (rule quietly_trans)
        have "quietly ?p w'"
        proof (cases st)
          case (Running t)
          with assms a1 a2 None None2 Inr b
          have "after_prompt (session_prompt cl (actions w1) sid parts) (Some t) w3 = (r, w')"
            by (simp add: prompt_with_relay_def w3_def Let_def)
          from q3 after_prompt_trace [OF this] show ?thesis by (rule quietly_trans)
        next
          case Resolved
          with assms a1 a2 None None2 Inr b
          have "after_prompt (session_prompt cl (actions w1) sid parts) None w3 = (r, w')"
            by (simp add: prompt_with_relay_def w3_def Let_def)
          from q3 after_prompt_trace [OF this] show ?thesis by (rule quietly_trans)
        next
          case (Rejected x)
          with assms a1 a2 None None2 Inr b
          have "w' = perform [UnhandledRejection x] w3"
            by (simp add: prompt_with_relay_def w3_def Let_def)
          moreover have "quietly w3 (perform [UnhandledRejection x] w3)"
            by (rule quietly_perform) simp
          ultimately show ?thesis using q3 quietly_trans by blast
        qed
        with q1 show ?thesis by blast
      qed
    qed
  qed
qed

lemma calm_perform [simp]: "calm (perform as w) = calm w"
  by (simp add: calm_def)

lemma relay_string_delta: "list_all string_delta evs \<Longrightarrow> snd (relay sid evs) = None"
proof (induction evs)
  case Nil
  show ?case by simp
next
  case (Cons e es)
  then have "relay_step sid e \<noteq> Raise x" for x
    by (induction sid e rule: relay_step.induct) (auto split: option.splits)
  with Cons show ?case
    by (cases "relay_step sid e") (auto split: prod.splits)
qed

lemma relay_batch_steady:
  assumes "steady (feed r)" and "relay_batch r = (ws, st)"
  shows "st = Resolved \<or> (\<exists>r'. st = Running r' \<and> steady (feed r'))"
proof (cases "feed r")
  case Nil
  with assms show ?thesis by (auto simp: relay_batch_def)
next
  case (Cons b later)
  obtain events status where bb: "b = (events, status)" by force
  from assms(1) Cons bb have s: "list_all string_delta events" "stays status" "steady later"
    by (simp_all add: steady_def)
  from relay_string_delta [OF s(1), of "rsession r"]
  obtain ws' where "relay (rsession r) events = (ws', None)"
    by (cases "relay (rsession r) events") auto
  with assms(2) Cons bb s(2,3) show ?thesis
    by (cases status) (auto simp: relay_batch_def)
qed

lemma run_relays_calm:
  "list_all (\<lambda>r. steady (feed r)) rs \<Longrightarrow> run_relays rs tr = (c, rs', tr') \<Longrightarrow>
   c = None \<and> list_all (\<lambda>r. steady (feed r)) rs'"
proof (induction rs arbitrary: tr c rs' tr')
  case Nil
  then show ?case by simp
next
  case (Cons r rs)
  obtain ws st where b: "relay_batch r = (ws, st)" by force
  from Cons.prems(1) have sr: "steady (feed r)" and srs: "list_all (\<lambda>r. steady (feed r)) rs"
    by simp_all
  define tr1 where "tr1 = tr @ map StdoutWrite ws"
  obtain c2 rs2 tr2 where rr: "run_relays rs tr1 = (c2, rs2, tr2)" by (cases "run_relays rs tr1") auto
  note IH = Cons.IH [OF srs rr]
  from relay_batch_steady [OF sr b] show ?case
  proof
    assume "st = Resolved"
    with Cons.prems(2) b rr IH show ?thesis by (simp add: tr1_def)
  next
    assume "\<exists>r'. st = Running r' \<and> steady (feed r')"
    then obtain r' where "st = Running r'" "steady (feed r')" by blast
    with Cons.prems(2) b rr IH show ?thesis by (auto simp: tr1_def)
  qed
qed

lemma await_io_calm: "calm w \<Longrightarrow> await_io w = (c, w') \<Longrightarrow> c = None \<and> calm w'"
proof -
  assume c: "calm w" and a: "await_io w = (c, w')"
  obtain c2 rs tr where rr: "run_relays (relays w) (actions w) = (c2, rs, tr)"
    by (cases "run_relays (relays w) (actions w)") auto
  from c have "list_all (\<lambda>r. steady (feed r)) (relays w)" by (simp add: calm_def)
  from run_relays_calm [OF this rr] a rr show ?thesis
    by (auto simp: await_io_def calm_def)
qed

lemma await_io_no_relays: "relays w = [] \<Longrightarrow> await_io w = (None, w)"
  by (simp add: await_io_def)



lemma race_calm:
  assumes "calm w" and "case sd of None \<Rightarrow> True | Some t \<Rightarrow> steady (feed t)"
    and "race sd w = (r, w')"
  shows "calm w'" and "r \<noteq> Crash x"
proof -
  have "calm w' \<and> r \<noteq> Crash x"
  proof (cases sd)
    case None
    with assms show ?thesis by (auto simp: race_def)
  next
    case (Some t)
    obtain c w1 where aw: "await_io w = (c, w1)" by force
    from await_io_calm [OF assms(1) aw] have c: "c = None" "calm w1" by simp_all
    obtain ws st where b: "relay_batch (t \<lparr> handled := True \<rparr>) = (ws, st)" by force
    from assms(2) Some have "steady (feed (t \<lparr> handled := True \<rparr>))" by simp
    from relay_batch_steady [OF this b] assms(3) Some aw c b show ?thesis
      by (auto simp: race_def Let_def calm_def)
  qed
  then show "calm w'" and "r \<noteq> Crash x" by simp_all
qed

lemma after_prompt_calm:
  assumes "calm w" and "case sd of None \<Rightarrow> True | Some t \<Rightarrow> steady (feed t)"
    and "after_prompt answer sd w = (r, w')"
  shows "calm w'" and "r \<noteq> Crash x"
proof -
  have "calm w' \<and> r \<noteq> Crash x"
  proof (cases answer)
    case (Inl e)
    with assms show ?thesis by (cases sd) (auto simp: after_prompt_def calm_def)
  next
    case (Inr data)
    obtain r1 w1 where rc: "race sd w = (r1, w1)" by force
    note c = race_calm [OF assms(1,2) rc]
    from assms(3) Inr rc c show ?thesis
      by (cases r1; cases data) (auto simp: after_prompt_def Let_def)
  qed
  then show "calm w'" and "r \<noteq> Crash x" by simp_all
qed

lemma prompt_with_relay_calm:
  assumes "calm w" and streams: "\<forall>t s. event_subscribe cl t = Inr s \<longrightarrow> steady s"
    and "prompt_with_relay cl sid parts w = (r, w')"
  shows "calm w'" and "r \<noteq> Crash x"
proof -
  obtain c1 w1 where a1: "await_io (perform [Subscribe] w) = (c1, w1)" by force
  from assms(1) have "calm (perform [Subscribe] w)" by simp
  from await_io_calm [OF this a1] have c1: "c1 = None" "calm w1" by simp_all
  have "calm w' \<and> r \<noteq> Crash x"
  proof (cases "event_subscribe cl (actions w)")
    case (Inl e)
    with assms(3) a1 c1 show ?thesis by (auto simp: prompt_with_relay_def)
  next
    case (Inr stream)
    with streams have st: "steady stream" by blast
    obtain c2 w2 where a2: "await_io (perform [Prompt sid parts] w1) = (c2, w2)" by force
    from c1(2) have "calm (perform [Prompt sid parts] w1)" by simp
    from await_io_calm [OF this a2] have c2: "c2 = None" "calm w2" by simp_all
    obtain ws st where b: "relay_batch \<lparr> rsession = sid, handled = False, feed = stream \<rparr> = (ws, st)"
      by force
    define w3 where "w3 = perform (map StdoutWrite ws) w2"
    from c2(2) have c3: "calm w3" by (simp add: w3_def)
    from st have "steady (feed \<lparr> rsession = sid, handled = False, feed = stream \<rparr>)" by simp
    from relay_batch_steady [OF this b] show ?thesis
    proof
      assume r: "st = Resolved"
      with assms(3) a1 c1 a2 c2 Inr b
      have "after_prompt (session_prompt cl (actions w1) sid parts) None w3 = (r, w')"
        by (simp add: prompt_with_relay_def w3_def Let_def)
      from after_prompt_calm [OF c3 _ this] show ?thesis by simp
    next
      assume "\<exists>r'. st = Running r' \<and> steady (feed r')"
      then obtain t where t: "st = Running t" "steady (feed t)" by blast
      with assms(3) a1 c1 a2 c2 Inr b
      have "after_prompt (session_prompt cl (actions w1) sid parts) (Some t) w3 = (r, w')"
        by (simp add: prompt_with_relay_def w3_def Let_def)
      from after_prompt_calm [OF c3 _ this] t(2) show ?thesis by simp
    qed
  qed
  then show "calm w'" and "r \<noteq> Crash x" by simp_all
qed

lemma prompt_with_relay_counts:
  assumes "prompt_with_relay cl sid parts w = (r, w')"
  shows "builds w' = builds w" and "prompts w' \<le> prompts w + 1"
    and "followUps w' \<le> followUps w + 1" and "visited w' = visited w"
    and "writes_to q w' = writes_to q w" and "reported w' = reported w"
    and "prefix (actions w) (actions w')"
proof -
  from prompt_with_relay_trace [OF assms]
  have "builds w' = builds w \<and> prompts w' \<le> prompts w + 1 \<and> followUps w' \<le> followUps w + 1 \<and>
        visited w' = visited w \<and> writes_to q w' = writes_to q w \<and> reported w' = reported w \<and>
        prefix (actions w) (actions w')"
  proof
    assume "quietly w w'"
    from quietly_observations [OF this] show ?thesis by simp
  next
    assume "\<exists>w1. quietly w w1 \<and> quietly (perform [Prompt sid parts] w1) w'"
    then obtain w1 where q: "quietly w w1" "quietly (perform [Prompt sid parts] w1) w'" by blast
    note o1 = quietly_observations [OF q(1)]
    note o2 = quietly_observations [OF q(2)]
    have p: "prefix (actions w) (actions w')"
      using o1(7) o2(7) by (auto simp: prefix_def)
    from o1 o2 p show ?thesis
      by (simp add: builds_def prompts_def followUps_def visited_def writes_to_def reported_def)
  qed
  then show "builds w' = builds w" and "prompts w' \<le> prompts w + 1"
    and "followUps w' \<le> followUps w + 1" and "visited w' = visited w"
    and "writes_to q w' = writes_to q w" and "reported w' = reported w"
    and "prefix (actions w) (actions w')"
    by simp_all
qed

lemma modifyFile_counts:
  assumes "modifyFile cl sid p fp w = (r, w')"
  shows "builds w' = builds w" and "followUps w' = followUps w" and "visited w' = visited w"
    and "writes_to q w' = writes_to q w" and "reported w' = reported w"
    and "prefix (actions w) (actions w')"
proof -
  let ?parts = "[ReqText (js_join [CHR 0x0A] [p, [], return_only]),
                 ReqFile ''text/x-csharp'' fp (''file://'' @ fp)]"
  from assms have m: "prompt_with_relay cl sid ?parts w = (r, w')"
    by (simp add: modifyFile_def Let_def)
  note c = prompt_with_relay_counts [OF m]
  from c show "builds w' = builds w" and "visited w' = visited w"
    and "writes_to q w' = writes_to q w" and "reported w' = reported w"
    and "prefix (actions w) (actions w')" by simp_all
  from prompt_with_relay_trace [OF m] show "followUps w' = followUps w"
  proof
    assume "quietly w w'"
    from quietly_observations(3) [OF this] show ?thesis .
  next
    assume "\<exists>w1. quietly w w1 \<and> quietly (perform [Prompt sid ?parts] w1) w'"
    then obtain w1 where q: "quietly w w1" "quietly (perform [Prompt sid ?parts] w1) w'" by blast
    from quietly_observations(3) [OF q(1)] quietly_observations(3) [OF q(2)]
    show ?thesis by (simp add: followUps_def)
  qed
qed

section \<open>The pipeline: proofs\<close>

lemma observations_perform [simp]:
  "builds (perform as w) = builds w + length (filter is_exec as)"
  "prompts (perform as w) = prompts w + length (filter is_prompt as)"
  "followUps (perform as w) = followUps w + length (filter is_followUp as)"
  "visited (perform as w) = visited w @ concat (map processed as)"
  "writes_to q (perform as w) = writes_to q w @ filter (is_write_to q) as"
  "reported (perform as w) = reported w @ concat (map report_of as)"
  by (simp_all add: builds_def prompts_def followUps_def visited_def writes_to_def reported_def)

lemma prefix_perform [simp]: "prefix (actions w) (actions (perform as w))"
  by simp

lemma prefix_perform_trans: "prefix (actions (perform as w)) tr \<Longrightarrow> prefix (actions w) tr"
  by (auto simp: prefix_def)

lemma getBuildErrors_trace:
  "getBuildErrors rt tg fp w = (errs, w') \<Longrightarrow> w' = perform [ExecBuild tg] w"
  by (auto simp: getBuildErrors_def Let_def)

lemma sendFollowUp_counts:
  assumes "sendFollowUp cl sid m w = (r, w')"
  shows "builds w' = builds w" and "followUps w' \<le> followUps w + 1" and "visited w' = visited w"
    and "reported w' = reported w" and "prefix (actions w) (actions w')"
  using prompt_with_relay_counts [of cl sid "[ReqText m]" w r w'] assms
  by (simp_all add: sendFollowUp_def)

lemma sendFollowUp_calm:
  assumes "calm w" and "\<forall>t s. event_subscribe cl t = Inr s \<longrightarrow> steady s"
    and "sendFollowUp cl sid m w = (r, w')"
  shows "calm w'" and "r \<noteq> Crash x"
  using prompt_with_relay_calm [of w cl sid "[ReqText m]" r w'] assms
  by (simp_all add: sendFollowUp_def)

lemma modifyFile_calm:
  assumes "calm w" and "\<forall>t s. event_subscribe cl t = Inr s \<longrightarrow> steady s"
    and "modifyFile cl sid p fp w = (r, w')"
  shows "calm w'" and "r \<noteq> Crash x"
  using prompt_with_relay_calm [of w cl sid _ r w'] assms
  by (simp_all add: modifyFile_def Let_def)

lemma writeFile_trace:
  "writeFile rt fp c w = (r, w') \<Longrightarrow>
   builds w' = builds w \<and> followUps w' = followUps w \<and> visited w' = visited w \<and>
   reported w' = reported w \<and> prefix (actions w) (actions w') \<and> calm w' = calm w \<and>
   (r \<noteq> None \<longrightarrow> writes_to q w' = writes_to q w)"
  by (auto simp: writeFile_def split: option.splits)

lemma retry_loop_trace:
  "retry_loop cl rt tg fp sid limit attempt w = (r, w') \<Longrightarrow>
   followUps w' \<le> followUps w + (limit + 1 - attempt) \<and>
   builds w' \<le> builds w + (limit + 1 - attempt) + (if attempt \<le> limit then 1 else 0) \<and>
   builds w + (if attempt \<le> limit then 1 else 0) \<le> builds w' \<and>
   visited w' = visited w \<and> reported w' = reported w \<and> prefix (actions w) (actions w') \<and>
   (calm w \<longrightarrow> (\<forall>t s. event_subscribe cl t = Inr s \<longrightarrow> steady s) \<longrightarrow> calm w' \<and> (\<forall>x. r \<noteq> Crash x))"
proof (induction cl rt tg fp sid limit attempt w arbitrary: r w' rule: retry_loop.induct)
  case (1 cl rt tg fp sid limit attempt w)
  let ?S = "\<forall>t s. event_subscribe cl t = Inr s \<longrightarrow> steady s"
  show ?case
  proof (cases "attempt \<le> limit")
    case False
    with "1.prems" show ?thesis by (auto simp: retry_loop.simps)
  next
    case True
    define w1 where "w1 = perform [Console (BuildCheck attempt limit)] w"
    obtain errors w2 where g: "getBuildErrors rt tg fp w1 = (errors, w2)" by force
    from getBuildErrors_trace [OF g]
    have w2: "w2 = perform [Console (BuildCheck attempt limit), ExecBuild tg] w"
      by (simp add: w1_def)
    have c2: "builds w2 = builds w + 1" "followUps w2 = followUps w" "visited w2 = visited w"
      "reported w2 = reported w" "prefix (actions w) (actions w2)" "calm w2 = calm w"
      by (simp_all add: w2)
    show ?thesis
    proof (cases "errors = []")
      case True
      with \<open>attempt \<le> limit\<close> g "1.prems"
      have "r = Ok ()" "w' = perform [Console BuildSucceeded] w2"
        by (subst (asm) retry_loop.simps, simp add: w1_def [symmetric] Let_def)+
      with c2 \<open>attempt \<le> limit\<close> show ?thesis
        by (auto intro: prefix_order.trans)
    next
      case False
      define w3 where "w3 = perform [Console (SendingBack (length errors))] w2"
      obtain r4 w4 where s: "sendFollowUp cl sid (followUp_message errors) w3 = (r4, w4)" by force
      from sendFollowUp_counts(5) [OF s] have "prefix (actions w2) (actions w4)"
        by (auto simp: w3_def dest: append_prefixD)
      with c2(5) have p4: "prefix (actions w) (actions w4)" by (rule prefix_order.trans)
      from sendFollowUp_counts(1-4) [OF s] c2(1-4) p4
      have c4: "builds w4 = builds w + 1" "followUps w4 \<le> followUps w + 1" "visited w4 = visited w"
        "reported w4 = reported w" "prefix (actions w) (actions w4)"
        by (simp_all add: w3_def)
      have k4: "calm w4 \<and> (\<forall>x. r4 \<noteq> Crash x)" if "calm w" ?S
        using sendFollowUp_calm [OF _ that(2) s] that(1) c2(6) by (simp add: w3_def)
      show ?thesis
      proof (cases r4)
        case (Crash x)
        with \<open>attempt \<le> limit\<close> \<open>errors \<noteq> []\<close> g s "1.prems"
        have "r = Crash x" "w' = w4"
          by (subst (asm) retry_loop.simps, simp add: w1_def [symmetric] w3_def [symmetric] Let_def)+
        with c4 k4 Crash \<open>attempt \<le> limit\<close> show ?thesis by auto
      next
        case (Throw e)
        with \<open>attempt \<le> limit\<close> \<open>errors \<noteq> []\<close> g s "1.prems"
        have "r = Throw e" "w' = w4"
          by (subst (asm) retry_loop.simps, simp add: w1_def [symmetric] w3_def [symmetric] Let_def)+
        with c4 k4 \<open>attempt \<le> limit\<close> show ?thesis by auto
      next
        case (Ok modified)
        obtain r5 w5 where wr: "writeFile rt fp modified w4 = (r5, w5)" by force
        from writeFile_trace [OF wr] c4
        have c5: "builds w5 = builds w + 1" "followUps w5 \<le> followUps w + 1" "visited w5 = visited w"
          "reported w5 = reported w" "prefix (actions w) (actions w5)" "calm w5 = calm w4"
          by (auto intro: prefix_order.trans)
        show ?thesis
        proof (cases r5)
          case (Some e)
          with Ok \<open>attempt \<le> limit\<close> \<open>errors \<noteq> []\<close> g s wr "1.prems"
          have "r = Throw e" "w' = w5"
            by (subst (asm) retry_loop.simps, simp add: w1_def [symmetric] w3_def [symmetric] Let_def)+
          with c5 k4 \<open>attempt \<le> limit\<close> show ?thesis by auto
        next
          case None
          define w6 where "w6 = perform [Console WrittenRetry] w5"
          define w7 where "w7 = (if attempt = limit then
                                        (let (remaining, w') = getBuildErrors rt tg fp w6
                                         in if remaining \<noteq> []
                                            then perform [Console (StillErrors (length remaining) limit)] w'
                                            else perform [Console BuildSucceeded] w')
                                      else w6)"
          have c7: "builds w7 = builds w + 1 + (if attempt = limit then 1 else 0)"
            "followUps w7 \<le> followUps w + 1" "visited w7 = visited w" "reported w7 = reported w"
            "calm w7 = calm w4"
            using c5 by (auto simp: w7_def w6_def getBuildErrors_def Let_def)
          have "prefix (actions w5) (actions w7)"
            by (auto simp: w7_def w6_def getBuildErrors_def Let_def)
          with c5(5) have p7: "prefix (actions w) (actions w7)" by (rule prefix_order.trans)
          have rec: "retry_loop cl rt tg fp sid limit (attempt + 1) w7 = (r, w')"
            using None Ok \<open>attempt \<le> limit\<close> \<open>errors \<noteq> []\<close> g s wr "1.prems"
            unfolding w7_def w6_def
            by (subst (asm) retry_loop.simps)
               (simp add: w1_def [symmetric] w3_def [symmetric] Let_def)
          have IH: "followUps w' \<le> followUps w7 + (limit + 1 - (attempt + 1)) \<and>
                builds w' \<le> builds w7 + (limit + 1 - (attempt + 1)) + (if attempt + 1 \<le> limit then 1 else 0) \<and>
                builds w7 + (if attempt + 1 \<le> limit then 1 else 0) \<le> builds w' \<and>
                visited w' = visited w7 \<and> reported w' = reported w7 \<and> prefix (actions w7) (actions w') \<and>
                (calm w7 \<longrightarrow> ?S \<longrightarrow> calm w' \<and> (\<forall>x. r \<noteq> Crash x))"
            by (rule "1.IH" [OF \<open>attempt \<le> limit\<close> w1_def refl g [symmetric] \<open>errors \<noteq> []\<close> w3_def
                  s [symmetric] Ok wr [symmetric] None w6_def w7_def rec])
          from IH p7 have p: "prefix (actions w) (actions w')" by (auto intro: prefix_order.trans)
          from IH k4 c7(5) have k: "calm w \<longrightarrow> ?S \<longrightarrow> calm w' \<and> (\<forall>x. r \<noteq> Crash x)" by blast
          from IH c7 \<open>attempt \<le> limit\<close>
          have "followUps w' \<le> followUps w + (limit + 1 - attempt) \<and>
            builds w' \<le> builds w + (limit + 1 - attempt) + (if attempt \<le> limit then 1 else 0) \<and>
            builds w + (if attempt \<le> limit then 1 else 0) \<le> builds w' \<and>
            visited w' = visited w \<and> reported w' = reported w"
            by (auto split: if_splits)
          with p k show ?thesis by blast
        qed
      qed
    qed
  qed
qed

lemma try_block_trace:
  assumes "try_block cl rt opts prompt fp contents sid w = (r, w')"
  shows "followUps w' \<le> followUps w + maxRetries"
    and "builds w' \<le> builds w + maxRetries + 1"
    and "visited w' = visited w"
    and "reported w' = reported w"
    and "prefix (actions w) (actions w')"
    and "r \<noteq> Ok () \<Longrightarrow> builds w' = builds w \<Longrightarrow> writes_to q w' = writes_to q w"
    and "calm w \<Longrightarrow> \<forall>t s. event_subscribe cl t = Inr s \<longrightarrow> steady s \<Longrightarrow> calm w' \<and> r \<noteq> Crash x"
proof -
  let ?S = "\<forall>t s. event_subscribe cl t = Inr s \<longrightarrow> steady s"
  obtain r1 w1 where m: "modifyFile cl sid prompt fp w = (r1, w1)" by force
  note c1 = modifyFile_counts [OF m]
  have k1: "calm w1 \<and> r1 \<noteq> Crash x" if "calm w" ?S for x
    using modifyFile_calm [OF that m] by simp
  have "followUps w' \<le> followUps w + maxRetries \<and> builds w' \<le> builds w + maxRetries + 1 \<and>
        visited w' = visited w \<and> reported w' = reported w \<and> prefix (actions w) (actions w') \<and>
        (r \<noteq> Ok () \<longrightarrow> builds w' = builds w \<longrightarrow> writes_to q w' = writes_to q w) \<and>
        (calm w \<longrightarrow> ?S \<longrightarrow> calm w' \<and> r \<noteq> Crash x)"
  proof (cases r1)
    case (Crash y)
    with assms m have "r = Crash y" "w' = w1" by (simp_all add: try_block_def)
    with c1 k1 Crash show ?thesis by auto
  next
    case (Throw e)
    with assms m have "r = Throw e" "w' = w1" by (simp_all add: try_block_def)
    with c1 k1 show ?thesis by auto
  next
    case (Ok modified)
    show ?thesis
    proof (cases "contents = modified \<or> dryRun opts")
      case True
      with Ok assms m
      have "r = Ok ()" "w' = perform [Console NoChanges] w1 \<or> w' = perform [Console (DryRun modified)] w1"
        by (auto simp: try_block_def split: if_splits)
      with c1 k1 show ?thesis by (auto dest: prefix_order.trans [OF _ prefix_perform])
    next
      case False
      obtain r2 w2 where wr: "writeFile rt fp modified w1 = (r2, w2)" by force
      note c2 = writeFile_trace [OF wr, of q]
      from c1(6) c2 have p2: "prefix (actions w) (actions w2)" by (auto intro: prefix_order.trans)
      show ?thesis
      proof (cases r2)
        case (Some e)
        with False Ok assms m wr have "r = Throw e" "w' = w2" by (auto simp: try_block_def)
        with c1 c2 k1 p2 Some show ?thesis by auto
      next
        case None
        define w3 where "w3 = perform [Console Written] w2"
        from p2 have p3: "prefix (actions w) (actions w3)"
          unfolding w3_def by (rule prefix_order.trans) simp
        show ?thesis
        proof (cases "truthy (retryBuild opts)")
          case False
          with \<open>r2 = None\<close> \<open>\<not> (contents = modified \<or> dryRun opts)\<close> Ok assms m wr
          have "r = Ok ()" "w' = w3"
            by (auto simp: try_block_def w3_def Let_def split: option.splits)
          with c1 c2 k1 p3 show ?thesis by (auto simp: w3_def)
        next
          case True
          then obtain target where t: "retryBuild opts = Some target" by (cases "retryBuild opts") auto
          with True \<open>r2 = None\<close> \<open>\<not> (contents = modified \<or> dryRun opts)\<close> Ok assms m wr
          have "retry_loop cl rt target fp sid maxRetries 1 w3 = (r, w')"
            by (auto simp: try_block_def w3_def Let_def)
          note l = retry_loop_trace [OF this]
          from l p3 have p: "prefix (actions w) (actions w')" by (auto intro: prefix_order.trans)
          from l c1 c2 k1 have k: "calm w \<longrightarrow> ?S \<longrightarrow> calm w' \<and> r \<noteq> Crash x"
            by (auto simp: w3_def)
          from l c1 c2 p k show ?thesis
            by (auto simp: maxRetries_def w3_def)
        qed
      qed
    qed
  qed
  then show "followUps w' \<le> followUps w + maxRetries"
    and "builds w' \<le> builds w + maxRetries + 1"
    and "visited w' = visited w"
    and "reported w' = reported w"
    and "prefix (actions w) (actions w')"
    and "r \<noteq> Ok () \<Longrightarrow> builds w' = builds w \<Longrightarrow> writes_to q w' = writes_to q w"
    and "calm w \<Longrightarrow> \<forall>t s. event_subscribe cl t = Inr s \<longrightarrow> steady s \<Longrightarrow> calm w' \<and> r \<noteq> Crash x"
    by blast+
qed

text \<open>
  Claim C1.  \<^verbatim>\<open>maxRetries\<close> is 3.  Whatever the compiler and the service answer, the
  retry loop run from attempt 1 with a limit sends at most that many follow-up requests
  and invokes the compiler at most limit + 2 times (at most limit + 1 times, in fact);
  so the processing of one file sends at most \<^verbatim>\<open>maxRetries\<close> follow-up requests and
  invokes the compiler at most \<^verbatim>\<open>maxRetries\<close> + 2 times.
\<close>

theorem retry_requests_bounded:
  "maxRetries = 3 \<and>
   followUps (snd (retry_loop cl rt target filePath sessionId limit 1 tr)) \<le> followUps tr + limit \<and>
   builds (snd (retry_loop cl rt target filePath sessionId limit 1 tr)) \<le> builds tr + limit + 2 \<and>
   followUps (snd (try_block cl rt opts prompt filePath fileContents sessionId tr))
     \<le> followUps tr + maxRetries \<and>
   builds (snd (try_block cl rt opts prompt filePath fileContents sessionId tr))
     \<le> builds tr + maxRetries + 2"
proof -
  obtain r tr' where l: "retry_loop cl rt target filePath sessionId limit 1 tr = (r, tr')" by force
  obtain r2 tr2 where t: "try_block cl rt opts prompt filePath fileContents sessionId tr = (r2, tr2)" by force
  from retry_loop_trace [OF l] try_block_trace(1,2) [OF t] l t show ?thesis
    by (auto simp: maxRetries_def split: if_splits)
qed

theorem retry_requests_bounded_witness:
  "retryBuild retry_opts = Some ''/w/app.sln'' \<and>
   followUps (snd (try_block helpful_client failing_build retry_opts ''Make it compile.''
      ''/w/a.cs'' ''class A {}'' ''s1'' start)) = 3 \<and>
   builds (snd (try_block helpful_client failing_build retry_opts ''Make it compile.''
      ''/w/a.cs'' ''class A {}'' ''s1'' start)) = 4"
  using retry_requests_bounded [of helpful_client failing_build "''/w/app.sln''" "''/w/a.cs''" "''s1''" 3 start
      retry_opts "''Make it compile.''" "''class A {}''"]
  by code_simp





lemma set_add_not_Nil: "set_add acc x \<noteq> []"
  by (cases "x \<in> set acc") (auto simp: set_add_def)

lemma foldl_set_add_not_Nil: "acc \<noteq> [] \<Longrightarrow> foldl set_add acc xs \<noteq> []"
proof (induction xs arbitrary: acc)
  case Nil
  then show ?case by simp
next
  case (Cons x xs)
  have "set_add acc x \<noteq> []" by (rule set_add_not_Nil)
  then have "foldl set_add (set_add acc x) xs \<noteq> []" by (rule Cons.IH)
  then show ?case by simp
qed

lemma new_Set_Nil: "new_Set xs = [] \<longleftrightarrow> xs = []"
proof (cases xs)
  case Nil
  then show ?thesis by (simp add: new_Set_def)
next
  case (Cons y ys)
  have "foldl set_add (set_add [] y) ys \<noteq> []"
    by (rule foldl_set_add_not_Nil) (rule set_add_not_Nil)
  with Cons show ?thesis by (simp add: new_Set_def)
qed












text \<open>
  Two more ways for a file to end the run are left out of the statement above.  The
  call of \<^verbatim>\<open>createSession\<close> (like the \<^verbatim>\<open>readFileSync\<close> of the file) stands before the \<^verbatim>\<open>try\<close>
  block: an exception there leaves the loop, and the files after it are not processed.
  And the promise of the relay loop has no handler while the prompt is pending: when the
  event stream fails then, the process ends, and no \<^verbatim>\<open>catch\<close> reports anything.
\<close>

lemma session_failure_ends_run:
  "fst (main session_failing_client failing_build retry_opts [''a.cs'', ''b.cs''] start) = Exit 1 \<and>
   visited (snd (main session_failing_client failing_build retry_opts [''a.cs'', ''b.cs''] start)) = [''/w/a.cs''] \<and>
   reported (snd (main session_failing_client failing_build retry_opts [''a.cs'', ''b.cs''] start)) = []"
  by code_simp

lemma stream_failure_ends_run:
  "fst (main stream_failing_client failing_build retry_opts [''a.cs'', ''b.cs''] start) = Exit 1 \<and>
   visited (snd (main stream_failing_client failing_build retry_opts [''a.cs'', ''b.cs''] start)) = [''/w/a.cs''] \<and>
   reported (snd (main stream_failing_client failing_build retry_opts [''a.cs'', ''b.cs''] start)) = [] \<and>
   last (actions (snd (main stream_failing_client failing_build retry_opts [''a.cs'', ''b.cs''] start)))
     = UnhandledRejection (Exn ''terminated'')"
  by code_simp

text \<open>
  The options \<^verbatim>\<open>--retry-build ''\<close> and \<^verbatim>\<open>--build-filter ''\<close> are as good as absent.
\<close>

lemma empty_targets_are_unset:
  "builds (snd (main helpful_client failing_build
      (retry_opts \<lparr> retryBuild := Some [], buildFilter := Some [] \<rparr>) [''a.cs''] start)) = 0 \<and>
   fst (main helpful_client failing_build
      (retry_opts \<lparr> retryBuild := Some [], buildFilter := Some [] \<rparr>) [''a.cs''] start) = Returned"
  by code_simp

section \<open>The relay loops and the subscription: proofs\<close>

text \<open>
  Each relay loop drops the events of the sessions other than its own: such events alone
  produce no output and no exception, removing them from what the stream delivers
  changes nothing, and every text that the loop writes is the payload of a delta event
  of its own session.
\<close>

lemma relay_drops_foreign:
  "relay sid (filter (foreign sid) evs) = ([], None) \<and>
   relay sid (filter (\<lambda>e. \<not> foreign sid e) evs) = relay sid evs \<and>
   (\<forall>d \<in> set (fst (relay sid evs)).
      \<exists>p. Event ''message.part.delta'' (Some p) \<in> set evs \<and> sessionID p = Some sid \<and> delta p = Some d)"
  using relay_source [of _ sid evs] by (simp add: relay_foreign relay_filter)

lemma relay_mixed_feed:
  "relay ''s1'' mixed_feed = ([''cla'', ''ss''], None)"
  by code_simp

text \<open>
  Claim C5.  The claim fails on the program, by a defect of it: nothing stops the relay
  loop that \<^verbatim>\<open>modifyFile\<close> or \<^verbatim>\<open>sendFollowUp\<close> starts, so the loop of an earlier session goes on
  writing the deltas of that session while a later session is active.  In the run below
  the service has two sessions, one for each file.  The stream subscribed to for the
  first file delivers a delta of \<^verbatim>\<open>s1\<close> with the payload \<^verbatim>\<open>LATE\<close> while the prompt of the second
  file is pending.  The loop of the active session \<^verbatim>\<open>s2\<close> drops that event, but the payload
  is written to the standard output all the same, between the prompt request of \<^verbatim>\<open>s2\<close> and
  its first delta.
\<close>

theorem stale_relay_writes_foreign_delta:
  "fst (main two_session_client unchanged_files plain_opts [''a.cs'', ''b.cs''] start) = Returned \<and>
   written_during [] (actions (snd (main two_session_client unchanged_files plain_opts
       [''a.cs'', ''b.cs''] start)))
     = [(''s1'', ''one''), (''s1'', ''\<newline>''), (''s2'', ''LATE''), (''s2'', ''two''), (''s2'', ''\<newline>'')] \<and>
   event_session (delta_event ''s1'' ''LATE'') = Some ''s1'' \<and>
   foreign ''s2'' (delta_event ''s1'' ''LATE'') \<and>
   relay ''s2'' [delta_event ''s1'' ''LATE''] = ([], None)"
  by code_simp

lemma prompt_with_relay_subscribe_fails:
  "event_subscribe cl (actions w) = Inl e \<Longrightarrow>
   prompt_with_relay cl sid parts w
     = (case await_io (perform [Subscribe] w) of
          (Some x, w1) \<Rightarrow> (Crash x, w1)
        | (None, w1) \<Rightarrow> (Throw e, w1))"
  by (simp add: prompt_with_relay_def split: prod.splits option.splits)

lemma prompt_with_relay_subscribe_fails_counts:
  assumes "event_subscribe cl (actions w) = Inl e"
  shows "fst (prompt_with_relay cl sid parts w) \<noteq> Ok code"
    and "prompts (snd (prompt_with_relay cl sid parts w)) = prompts w"
proof -
  obtain c w1 where a: "await_io (perform [Subscribe] w) = (c, w1)" by force
  have "quietly w (perform [Subscribe] w)" by (rule quietly_perform) simp
  with await_io_trace [OF a] have "quietly w w1" by (rule quietly_trans [rotated])
  from quietly_observations(2) [OF this] have p: "prompts w1 = prompts w" .
  from a show "fst (prompt_with_relay cl sid parts w) \<noteq> Ok code"
    unfolding prompt_with_relay_subscribe_fails [OF assms] by (cases c) simp_all
  from a p show "prompts (snd (prompt_with_relay cl sid parts w)) = prompts w"
    unfolding prompt_with_relay_subscribe_fails [OF assms] by (cases c) simp_all
qed

text \<open>
  Claim C6, as amended.  If establishing the event-feed subscription fails, the
  exception leaves \<^verbatim>\<open>modifyFile\<close> and \<^verbatim>\<open>sendFollowUp\<close> at once: no prompt request is sent
  and no response is obtained; in the pipeline the \<^verbatim>\<open>catch\<close> of the file reports it.
  While the program waits for the subscription, the relay loops of earlier calls may
  still write, or end the process; when there is none, the state is the one before the
  call with the subscription added.
\<close>

theorem subscribe_failure_propagates:
  "event_subscribe cl (actions tr) = Inl e \<Longrightarrow>
     (relays tr = [] \<longrightarrow>
        modifyFile cl sid prompt filePath tr = (Throw e, perform [Subscribe] tr) \<and>
        sendFollowUp cl sid message tr = (Throw e, perform [Subscribe] tr) \<and>
        try_catch cl rt opts prompt filePath fileContents sid tr
          = (Ok (), perform [Subscribe, Console (ErrorProcessing filePath e)] tr)) \<and>
     modifyFile cl sid prompt filePath tr
       = (case await_io (perform [Subscribe] tr) of
            (Some x, tr1) \<Rightarrow> (Crash x, tr1)
          | (None, tr1) \<Rightarrow> (Throw e, tr1)) \<and>
     sendFollowUp cl sid message tr
       = (case await_io (perform [Subscribe] tr) of
            (Some x, tr1) \<Rightarrow> (Crash x, tr1)
          | (None, tr1) \<Rightarrow> (Throw e, tr1)) \<and>
     try_catch cl rt opts prompt filePath fileContents sid tr
       = (case await_io (perform [Subscribe] tr) of
            (Some x, tr1) \<Rightarrow> (Crash x, tr1)
          | (None, tr1) \<Rightarrow> (Ok (), perform [Console (ErrorProcessing filePath e)] tr1)) \<and>
     fst (modifyFile cl sid prompt filePath tr) \<noteq> Ok code \<and>
     prompts (snd (modifyFile cl sid prompt filePath tr)) = prompts tr \<and>
     fst (sendFollowUp cl sid message tr) \<noteq> Ok code \<and>
     prompts (snd (sendFollowUp cl sid message tr)) = prompts tr"
proof -
  assume f: "event_subscribe cl (actions tr) = Inl e"
  note g = prompt_with_relay_subscribe_fails [OF f]
  have g1: "modifyFile cl sid prompt filePath tr
       = (case await_io (perform [Subscribe] tr) of
            (Some x, tr1) \<Rightarrow> (Crash x, tr1)
          | (None, tr1) \<Rightarrow> (Throw e, tr1))"
    by (simp add: modifyFile_def Let_def g)
  have g2: "sendFollowUp cl sid message tr
       = (case await_io (perform [Subscribe] tr) of
            (Some x, tr1) \<Rightarrow> (Crash x, tr1)
          | (None, tr1) \<Rightarrow> (Throw e, tr1))"
    by (simp add: sendFollowUp_def g)
  have g3: "try_catch cl rt opts prompt filePath fileContents sid tr
       = (case await_io (perform [Subscribe] tr) of
            (Some x, tr1) \<Rightarrow> (Crash x, tr1)
          | (None, tr1) \<Rightarrow> (Ok (), perform [Console (ErrorProcessing filePath e)] tr1))"
    by (simp add: try_catch_def try_block_def g1 split: prod.splits option.splits)
  have 1: "modifyFile cl sid prompt filePath tr = (Throw e, perform [Subscribe] tr) \<and>
        sendFollowUp cl sid message tr = (Throw e, perform [Subscribe] tr) \<and>
        try_catch cl rt opts prompt filePath fileContents sid tr
          = (Ok (), perform [Subscribe, Console (ErrorProcessing filePath e)] tr)"
    if "relays tr = []"
  proof -
    from that have "await_io (perform [Subscribe] tr) = (None, perform [Subscribe] tr)"
      by (simp add: await_io_no_relays)
    then show ?thesis by (simp add: g1 g2 g3)
  qed
  then have c1: "relays tr = [] \<longrightarrow>
        modifyFile cl sid prompt filePath tr = (Throw e, perform [Subscribe] tr) \<and>
        sendFollowUp cl sid message tr = (Throw e, perform [Subscribe] tr) \<and>
        try_catch cl rt opts prompt filePath fileContents sid tr
          = (Ok (), perform [Subscribe, Console (ErrorProcessing filePath e)] tr)"
    by (intro impI)
  note c = prompt_with_relay_subscribe_fails_counts [OF f]
  have c2: "fst (modifyFile cl sid prompt filePath tr) \<noteq> Ok code"
    and c3: "prompts (snd (modifyFile cl sid prompt filePath tr)) = prompts tr"
    using c by (simp_all add: modifyFile_def Let_def)
  have c4: "fst (sendFollowUp cl sid message tr) \<noteq> Ok code"
    and c5: "prompts (snd (sendFollowUp cl sid message tr)) = prompts tr"
    using c by (simp_all add: sendFollowUp_def)
  show ?thesis
    by (rule conjI [OF c1 conjI [OF g1 conjI [OF g2 conjI [OF g3
          conjI [OF c2 conjI [OF c3 conjI [OF c4 c5]]]]]]])
qed

theorem subscribe_failure_propagates_witness:
  "event_subscribe feed_failing_client (actions start) = Inl (Exn ''fetch failed'') \<and>
   relays start = [] \<and>
   try_catch feed_failing_client failing_build retry_opts ''Make it compile.'' ''/w/a.cs''
      ''class A {}'' ''s1'' start
     = (Ok (), \<lparr> actions = [Subscribe, Console (ErrorProcessing ''/w/a.cs'' (Exn ''fetch failed''))],
          relays = [] \<rparr>) \<and>
   prompts (snd (modifyFile feed_failing_client ''s1'' ''Make it compile.'' ''/w/a.cs'' start)) = 0"
proof -
  have h: "event_subscribe feed_failing_client (actions start) = Inl (Exn ''fetch failed'')"
    by (simp add: feed_failing_client_def helpful_client_def)
  have r: "relays start = []" by (simp add: start_def)
  have p: "prompts start = 0" by (simp add: prompts_def start_def)
  note T = subscribe_failure_propagates [where cl = feed_failing_client and tr = start
      and e = "Exn ''fetch failed''" and sid = "''s1''" and prompt = "''Make it compile.''"
      and filePath = "''/w/a.cs''" and message = "''Fix the errors.''" and rt = failing_build
      and opts = retry_opts and fileContents = "''class A {}''" and code = "[]", OF h]
  note T1 = T [THEN conjunct1, THEN mp, OF r]
  note T2 = T [THEN conjunct2, THEN conjunct2, THEN conjunct2, THEN conjunct2, THEN conjunct2,
      THEN conjunct1]
  from T1 [THEN conjunct2, THEN conjunct2] T2 h r p
  show ?thesis by (simp add: perform_def start_def)
qed

text \<open>
  Claim C6 as stated fails: with a service that would answer the prompt but whose feed
  cannot be subscribed to, both functions throw before any prompt request is sent.
\<close>

theorem subscribe_failure_aborts_request:
  "modifyFile feed_failing_client ''s1'' ''Make it compile.'' ''/w/a.cs'' start
     = (Throw (Exn ''fetch failed''), \<lparr> actions = [Subscribe], relays = [] \<rparr>) \<and>
   sendFollowUp feed_failing_client ''s1'' ''Fix the errors.'' start
     = (Throw (Exn ''fetch failed''), \<lparr> actions = [Subscribe], relays = [] \<rparr>) \<and>
   session_prompt feed_failing_client [Subscribe] ''s1'' [ReqText ''Fix the errors.'']
     = Inr (Some sample_rewrite)"
  by (simp add: modifyFile_def sendFollowUp_def prompt_with_relay_def feed_failing_client_def
      helpful_client_def await_io_def perform_def start_def)

section \<open>The diagnostic extractor: proofs\<close>

text \<open>
  Claim C3 fails on the code.  \<^verbatim>\<open>getBuildErrors\<close> cuts the matched text at the first
  opening bracket, so an error line of a file whose path holds a bracket yields no
  record for that file (while \<^verbatim>\<open>getBuildErrorFiles\<close> reports the file), and it yields a
  record for the file named by the text before that bracket.
\<close>

theorem bracketed_path_not_extracted:
  "parseBuildErrors (posix_resolve ''/w'')
     ''/w/App (old)/A.cs(3,7): error CS1002: ; expected'' ''/w/App (old)/A.cs'' = [] \<and>
   parseErrorFiles (posix_resolve ''/w'')
     ''/w/App (old)/A.cs(3,7): error CS1002: ; expected'' = [''/w/App (old)/A.cs''] \<and>
   parseBuildErrors (posix_resolve ''/w'')
     ''/w/A.cs(old)/B.cs(3,7): error CS1002: ; expected'' ''/w/A.cs''
       = [''/w/A.cs(old)/B.cs(3,7): error CS1002: ; expected'']"
  by code_simp

lemma takeWhile_before_open:
  "is_open opn \<Longrightarrow> takeWhile (\<lambda>c. \<not> is_open c) (u @ opn # t) = takeWhile (\<lambda>c. \<not> is_open c) u"
  by (induction u) simp_all

lemma dropWhile_space_path:
  "list_all js_space ws \<Longrightarrow>
   dropWhile js_space (ws @ pre @ ''.cs'' @ t) = dropWhile js_space pre @ ''.cs'' @ t"
proof -
  assume "list_all js_space ws"
  then have "dropWhile js_space (ws @ pre @ ''.cs'' @ t) = dropWhile js_space (pre @ CHR ''.'' # ''cs'' @ t)"
    by (simp add: dropWhile_all)
  also have "\<dots> = dropWhile js_space pre @ CHR ''.'' # ''cs'' @ t"
    by (rule dropWhile_append3) (simp add: js_space_def)
  finally show ?thesis by simp
qed

lemma notation_line_is_error:
  assumes "list_all js_space ws" "list_all js_dot pre" "is_open opn" "d1 \<noteq> []" "list_all js_digit d1"
    "is_sep sep" "d2 \<noteq> []" "list_all js_digit d2" "is_close cls" "severity_shape w"
  shows "line_is_error_of rs r (ws @ pre @ ''.cs'' @ opn # d1 @ sep # d2 @ cls # w @ rest)
         = (rs (takeWhile (\<lambda>c. \<not> is_open c) (dropWhile js_space pre @ ''.cs'')) = r)"
proof -
  let ?loc = "opn # d1 @ sep # d2 @ cls # w"
  let ?line = "ws @ pre @ ''.cs'' @ opn # d1 @ sep # d2 @ cls # w @ rest"
  have "location_shape ?loc"
    unfolding location_shape_def using assms(3-10) by blast
  moreover have "?line = ws @ pre @ ''.cs'' @ ?loc @ rest" by simp
  ultimately have shape: "error_line_shape ?line"
    unfolding error_line_shape_def using assms(1,2) by blast
  have e: "dropWhile js_space ?line = (dropWhile js_space pre @ ''.cs'') @ opn # (d1 @ sep # d2 @ cls # w @ rest)"
    using dropWhile_space_path [OF assms(1), of pre "opn # d1 @ sep # d2 @ cls # w @ rest"] by simp
  have "takeWhile (\<lambda>c. \<not> is_open c) (dropWhile js_space ?line)
      = takeWhile (\<lambda>c. \<not> is_open c) (dropWhile js_space pre @ ''.cs'')"
    unfolding e by (rule takeWhile_before_open [OF assms(3)])
  with shape show ?thesis
    unfolding line_is_error_of_iff by simp
qed

text \<open>
  Claim C9, as amended.  A line of the compiler output yields a record only if it is
  written in the notation \<open>error_line_shape\<close>: after a path that ends in \<^verbatim>\<open>.cs\<close>, an
  opening \<^verbatim>\<open>(\<close> or \<^verbatim>\<open>[\<close>, digits, a comma or a semicolon, digits, a closing \<^verbatim>\<open>)\<close> or \<^verbatim>\<open>]\<close>
  (which need not match the opening one), then white space, a colon, white space, the
  keyword \<^verbatim>\<open>error\<close> and a white-space character.  Every line in this notation is an error
  of the file to which the text before the first opening bracket resolves, whichever
  of the delimiters and separators is written.
\<close>

theorem error_line_notation:
  "(r \<in> set (parseBuildErrors rs output f) \<longrightarrow>
      (\<exists>line \<in> set (js_split is_newline output). r = trim line \<and> error_line_shape line)) \<and>
   (list_all js_space ws \<longrightarrow> list_all js_dot pre \<longrightarrow> is_open opn \<longrightarrow> d1 \<noteq> [] \<longrightarrow>
    list_all js_digit d1 \<longrightarrow> is_sep sep \<longrightarrow> d2 \<noteq> [] \<longrightarrow> list_all js_digit d2 \<longrightarrow> is_close cls \<longrightarrow>
    severity_shape w \<longrightarrow>
      line_is_error_of rs r' (ws @ pre @ ''.cs'' @ opn # d1 @ sep # d2 @ cls # w @ rest)
        = (rs (takeWhile (\<lambda>c. \<not> is_open c) (dropWhile js_space pre @ ''.cs'')) = r'))"
proof -
  have 1: "\<exists>line \<in> set (js_split is_newline output). r = trim line \<and> error_line_shape line"
    if "r \<in> set (parseBuildErrors rs output f)"
  proof -
    from that obtain line where "line \<in> set (js_split is_newline output)"
      "line_is_error_of rs (rs f) line" "r = trim line"
      by (auto simp: parseBuildErrors_def Let_def)
    then show ?thesis
      unfolding line_is_error_of_iff by blast
  qed
  from 1 have c1: "r \<in> set (parseBuildErrors rs output f) \<longrightarrow>
      (\<exists>line \<in> set (js_split is_newline output). r = trim line \<and> error_line_shape line)"
    by (intro impI)
  have c2: "list_all js_space ws \<longrightarrow> list_all js_dot pre \<longrightarrow> is_open opn \<longrightarrow> d1 \<noteq> [] \<longrightarrow>
    list_all js_digit d1 \<longrightarrow> is_sep sep \<longrightarrow> d2 \<noteq> [] \<longrightarrow> list_all js_digit d2 \<longrightarrow> is_close cls \<longrightarrow>
    severity_shape w \<longrightarrow>
      line_is_error_of rs r' (ws @ pre @ ''.cs'' @ opn # d1 @ sep # d2 @ cls # w @ rest)
        = (rs (takeWhile (\<lambda>c. \<not> is_open c) (dropWhile js_space pre @ ''.cs'')) = r')"
    by (intro impI) (rule notation_line_is_error)
  from c1 c2 show ?thesis by (rule conjI)
qed

theorem error_line_notation_witness:
  "trim sample_line \<in> set (parseBuildErrors (posix_resolve ''/w'') sample_line ''/w/a.cs'') \<and>
   error_line_shape sample_line \<and>
   severity_shape '': error '' \<and>
   sample_line = ''  '' @ ''/w/a'' @ ''.cs'' @ CHR ''['' # ''3'' @ CHR '';'' # ''7'' @ CHR '')'' # '': error '' @ ''CS1002: ; expected'' \<and>
   line_is_error_of (posix_resolve ''/w'') ''/w/a.cs'' sample_line"
proof -
  have sev: "severity_shape '': error ''"
    unfolding severity_shape_def
    by (intro exI [of _ "[]"] exI [of _ "'' ''"] exI [of _ "CHR '' ''"]) (simp add: js_space_def)
  have mem: "trim sample_line \<in> set (parseBuildErrors (posix_resolve ''/w'') sample_line ''/w/a.cs'')"
    by code_simp
  have eq: "sample_line = ''  '' @ ''/w/a'' @ ''.cs'' @ CHR ''['' # ''3'' @ CHR '';'' # ''7'' @ CHR '')'' # '': error '' @ ''CS1002: ; expected''"
    by (simp add: sample_line_def)
  have split1: "js_split is_newline sample_line = [sample_line]"
    by code_simp
  have path: "posix_resolve ''/w'' (takeWhile (\<lambda>c. \<not> is_open c) (dropWhile js_space ''/w/a'' @ ''.cs'')) = ''/w/a.cs''"
    by code_simp
  note T = error_line_notation [where r = "trim sample_line" and rs = "posix_resolve ''/w''"
      and ?output = sample_line and f = "''/w/a.cs''" and ws = "''  ''" and pre = "''/w/a''"
      and opn = "CHR ''[''" and ?d1.0 = "''3''" and sep = "CHR '';''" and ?d2.0 = "''7''" and cls = "CHR '')''"
      and w = "'': error ''" and rest = "''CS1002: ; expected''" and r' = "''/w/a.cs''"]
  from T mem split1 have shape: "error_line_shape sample_line" by simp
  have "line_is_error_of (posix_resolve ''/w'') ''/w/a.cs''
      (''  '' @ ''/w/a'' @ ''.cs'' @ CHR ''['' # ''3'' @ CHR '';'' # ''7'' @ CHR '')'' # '': error '' @ ''CS1002: ; expected'')"
    using T sev path by (simp add: js_space_def js_dot_def js_line_terminator_def is_open_def is_close_def
        is_sep_def js_digit_def)
  then have "line_is_error_of (posix_resolve ''/w'') ''/w/a.cs'' sample_line"
    unfolding eq .
  with mem shape sev eq show ?thesis by blast
qed

text \<open>
  Claim C9 as stated fails: a location written with a semicolon and with delimiters
  that do not match yields a record.
\<close>

theorem semicolon_and_mixed_delimiters_accepted:
  "parseBuildErrors (posix_resolve ''/w'') ''/w/a.cs(3;7]: error CS1002: ; expected'' ''/w/a.cs''
     = [''/w/a.cs(3;7]: error CS1002: ; expected'']"
  by code_simp

text \<open>
  The two extractors agree on every target path that \<^verbatim>\<open>resolve\<close> leaves unchanged (an
  absolute, normalised path, as \<^verbatim>\<open>main\<close> passes it) as long as no captured path of the
  output holds an opening bracket: the target is then one of the error files of
  \<^verbatim>\<open>getBuildErrorFiles\<close> if and only if \<^verbatim>\<open>getBuildErrors\<close> returns a record for it.
\<close>

lemma error_files_iff_build_errors:
  assumes resolved: "rs f = f"
    and paths: "bracket_free_paths output"
  shows "f \<in> set (parseErrorFiles rs output) \<longleftrightarrow> parseBuildErrors rs output f \<noteq> []"
proof -
  have "(\<exists>g. js_match errorFiles_re line = Some g \<and> rs g = f) \<longleftrightarrow> line_is_error_of rs (rs f) line"
    if "line \<in> set (js_split is_newline output)" for line
  proof (cases "js_match errorFiles_re line")
    case None
    then have "\<not> line_is_error_of rs (rs f) line"
      unfolding errorFiles_None_iff line_is_error_of_iff by simp
    with None show ?thesis by simp
  next
    case (Some g)
    with paths that have "list_all (\<lambda>c. \<not> is_open c) g"
      by (auto simp: bracket_free_paths_def list_all_iff)
    from same_path_without_brackets [OF Some this, of rs "rs f"] Some resolved
    show ?thesis by simp
  qed
  then show ?thesis
    unfolding in_parseErrorFiles parseBuildErrors_nonempty by blast
qed

text \<open>
  Claim C10.  The claim fails on the code, by the defect of claim C3: \<^verbatim>\<open>getBuildErrors\<close>
  cuts the matched text at the first opening bracket, \<^verbatim>\<open>getBuildErrorFiles\<close> does not.  For
  a file in a directory whose name holds a bracket, the path is resolved, the build
  reports an error in the file, \<^verbatim>\<open>getBuildErrorFiles\<close> returns the file as an error file, and
  \<^verbatim>\<open>getBuildErrors\<close> returns no record for it; so a run with both options selects the file,
  rewrites it, and declares the build succeeded without any follow-up request.
\<close>

theorem error_file_without_build_errors:
  "resolve bracket_build ''/w/src [v2]/Program.cs'' = ''/w/src [v2]/Program.cs'' \<and>
   fst (getBuildErrorFiles bracket_build ''/w/app.sln'' False start) = [''/w/src [v2]/Program.cs''] \<and>
   fst (getBuildErrors bracket_build ''/w/app.sln'' ''/w/src [v2]/Program.cs'' start) = [] \<and>
   \<not> bracket_free_paths ''/w/src [v2]/Program.cs(12,4): error CS0103: no such name'' \<and>
   visited (snd (main helpful_client bracket_build filter_opts [''/w/src [v2]/Program.cs''] start))
     = [''/w/src [v2]/Program.cs''] \<and>
   followUps (snd (main helpful_client bracket_build filter_opts [''/w/src [v2]/Program.cs''] start)) = 0 \<and>
   Console BuildSucceeded
     \<in> set (actions (snd (main helpful_client bracket_build filter_opts [''/w/src [v2]/Program.cs''] start)))"
  by code_simp

end
